theory Spec2Isabelle
  imports Complex_Main "HOL-Library.Product_Lexorder"
begin

section \<open>Signal processing algorithms of \<^verbatim>\<open>cdl/algorithms/signal.py\<close>\<close>

text \<open>
  Arrays are lists, NumPy's float64 is \<^typ>\<open>real\<close> (exact arithmetic, no rounding), a
  complex array is a \<^typ>\<open>complex list\<close>. Every exception the Python raises is a value
  \<open>Inl e\<close> of the result; a warning is a string in the list of warnings returned with
  the value.
\<close>

datatype error = ValueError string | IndexError | ZeroDivisionError | TypeError

subsection \<open>Floats that may be non-finite\<close>

text \<open>
  NumPy does not raise on a float division by zero: the quotient is \<open>inf\<close> or \<open>nan\<close>.
  A float produced by such a division is an \<open>npfloat\<close>: \<open>Some r\<close> is the finite value
  \<open>r\<close>, \<open>None\<close> is a non-finite value (\<open>inf\<close>, \<open>-inf\<close> or \<open>nan\<close>). An operation
  with a non-finite operand gives a non-finite result. This is what IEEE arithmetic does
  in every computation below but one: a finite dividend over an infinite divisor is \<open>0\<close>,
  which \<open>ifft1d\<close> meets only when it is given an abscissa that is itself infinite.
\<close>

type_synonym npfloat = "real option"

definition fdiv :: "npfloat \<Rightarrow> npfloat \<Rightarrow> npfloat" where
  "fdiv a b = (case (a, b) of
      (Some u, Some v) \<Rightarrow> if v = 0 then None else Some (u / v)
    | _ \<Rightarrow> None)"

definition fmul :: "npfloat \<Rightarrow> npfloat \<Rightarrow> npfloat" where
  "fmul a b = (case (a, b) of (Some u, Some v) \<Rightarrow> Some (u * v) | _ \<Rightarrow> None)"

definition fadd :: "npfloat \<Rightarrow> npfloat \<Rightarrow> npfloat" where
  "fadd a b = (case (a, b) of (Some u, Some v) \<Rightarrow> Some (u + v) | _ \<Rightarrow> None)"

definition fsub :: "npfloat \<Rightarrow> npfloat \<Rightarrow> npfloat" where
  "fsub a b = (case (a, b) of (Some u, Some v) \<Rightarrow> Some (u - v) | _ \<Rightarrow> None)"

definition fneg :: "npfloat \<Rightarrow> npfloat" where
  "fneg a = map_option uminus a"

definition np_log10 :: "real \<Rightarrow> npfloat" where
  \<comment> \<open>\<open>np.log10\<close>: \<open>-inf\<close> at zero and \<open>nan\<close> below it.\<close>
  "np_log10 v = (if v \<le> 0 then None else Some (log 10 v))"

subsection \<open>NumPy array primitives\<close>

fun np_diff :: "'a::minus list \<Rightarrow> 'a list" where
  "np_diff (a # b # xs) = (b - a) # np_diff (b # xs)"
| "np_diff xs = []"

definition np_max :: "real list \<Rightarrow> error + real" where
  "np_max xs = (if xs = []
     then Inl (ValueError ''zero-size array to reduction operation maximum which has no identity'')
     else Inr (Max (set xs)))"

definition np_min :: "real list \<Rightarrow> error + real" where
  "np_min xs = (if xs = []
     then Inl (ValueError ''zero-size array to reduction operation minimum which has no identity'')
     else Inr (Min (set xs)))"

definition np_isclose :: "real \<Rightarrow> real \<Rightarrow> real \<Rightarrow> bool" where
  \<comment> \<open>\<open>np.isclose(a, b, atol=atol)\<close> with the default \<open>rtol = 1e-5\<close>.\<close>
  "np_isclose a b atol = (\<bar>a - b\<bar> \<le> atol + (1 / 10 ^ 5) * \<bar>b\<bar>)"

definition np_where :: "('a \<Rightarrow> bool) \<Rightarrow> 'a list \<Rightarrow> nat list" where
  \<comment> \<open>\<open>np.where(mask)[0]\<close>: the indices at which the mask holds, ascending.\<close>
  "np_where P xs = filter (\<lambda>i. P (xs ! i)) [0..<length xs]"

definition take_idx :: "'a list \<Rightarrow> nat list \<Rightarrow> error + 'a list" where
  \<comment> \<open>\<open>a[idx]\<close> for an array \<open>idx\<close> of non-negative indices.\<close>
  "take_idx xs idx = (if list_all (\<lambda>i. i < length xs) idx
     then Inr (map (\<lambda>i. xs ! i) idx) else Inl IndexError)"

subsection \<open>Sampling period and rate\<close>

definition sampling_period :: "real list \<Rightarrow> error + (real \<times> string list)" where
  "sampling_period x = (let steps = np_diff x in
     case np_max (np_diff steps) of
       Inl e \<Rightarrow> Inl e
     | Inr m \<Rightarrow>
         let warns = (if \<not> np_isclose m 0 (1 / 10 ^ 10)
                      then [''Non-constant sampling signal''] else [])
         in (case steps of [] \<Rightarrow> Inl IndexError | s # _ \<Rightarrow> Inr (s, warns)))"

definition sampling_rate :: "real list \<Rightarrow> error + (npfloat \<times> string list)" where
  "sampling_rate x = (case sampling_period x of
       Inl e \<Rightarrow> Inl e
     | Inr (p, warns) \<Rightarrow> Inr (fdiv (Some 1) (Some p), warns))"

text \<open>
  The specification's measure of a non-constant spacing: the largest absolute value of
  the second-order differences of \<open>x\<close>, the differences of its steps.
\<close>

definition max_abs_second_difference :: "real list \<Rightarrow> real" where
  "max_abs_second_difference x = Max (set (map abs (np_diff (np_diff x))))"

subsection \<open>Discrete Fourier transform\<close>

text \<open>
  \<open>np.fft.fft\<close> and \<open>np.fft.ifft\<close> are NumPy's: by their documentation
  \<open>A\<^sub>k = \<Sum>\<^sub>m a\<^sub>m exp(-2\<pi>i mk/n)\<close> and \<open>a\<^sub>m = (1/n) \<Sum>\<^sub>k A\<^sub>k exp(2\<pi>i mk/n)\<close>, and both
  raise \<open>ValueError\<close> on an empty array.
\<close>

definition dft :: "complex list \<Rightarrow> complex list" where
  "dft a = (let n = length a in
     map (\<lambda>k. \<Sum>m<n. a ! m * cis (- (2 * pi * real m * real k / real n))) [0..<n])"

definition idft :: "complex list \<Rightarrow> complex list" where
  "idft a = (let n = length a in
     map (\<lambda>m. (\<Sum>k<n. a ! k * cis (2 * pi * real m * real k / real n)) / of_nat n) [0..<n])"

definition np_fft :: "complex list \<Rightarrow> error + complex list" where
  "np_fft a = (if a = []
     then Inl (ValueError ''Invalid number of FFT data points (0) specified.'')
     else Inr (dft a))"

definition np_ifft :: "complex list \<Rightarrow> error + complex list" where
  "np_ifft a = (if a = []
     then Inl (ValueError ''Invalid number of FFT data points (0) specified.'')
     else Inr (idft a))"

definition fftfreq :: "nat \<Rightarrow> real \<Rightarrow> npfloat list" where
  \<comment> \<open>\<open>np.fft.fftfreq(n, d)\<close>: the bins \<open>0, 1, ..., (n-1)//2, -(n//2), ..., -1\<close>
      times \<open>1.0 / (n * d)\<close>.\<close>
  "fftfreq n d = (let val = fdiv (Some 1) (Some (real n * d));
                      N = nat ((int n - 1) div 2 + 1);
                      results = map int [0..<N] @ map (\<lambda>j. int j - int (n div 2)) [0..<n div 2]
                  in map (\<lambda>k. fmul (Some (of_int k)) val) results)"

definition fftshift :: "'a list \<Rightarrow> 'a list" where
  \<comment> \<open>\<open>np.fft.fftshift\<close> of a 1-D array: \<open>np.roll(x, n // 2)\<close>.\<close>
  "fftshift xs = (let s = length xs div 2 in
                    drop (length xs - s) xs @ take (length xs - s) xs)"

definition ifftshift :: "'a list \<Rightarrow> 'a list" where
  \<comment> \<open>\<open>np.fft.ifftshift\<close> of a 1-D array: \<open>np.roll(x, -(n // 2))\<close>.\<close>
  "ifftshift xs = (let s = length xs div 2 in drop s xs @ take s xs)"

subsection \<open>Spectral transforms\<close>

definition fft1d :: "real list \<Rightarrow> complex list \<Rightarrow> bool \<Rightarrow> error + (npfloat list \<times> complex list)" where
  "fft1d x y shift = (case np_fft y of
       Inl e \<Rightarrow> Inl e
     | Inr y1 \<Rightarrow>
         if length x < 2 then Inl IndexError
         else let x1 = fftfreq (length x) (x ! 1 - x ! 0)
              in if shift then Inr (fftshift x1, fftshift y1) else Inr (x1, y1))"

definition ifft1d :: "npfloat list \<Rightarrow> complex list \<Rightarrow> bool \<Rightarrow> error + (npfloat list \<times> real list)" where
  "ifft1d x y shift = (let y = (if shift then ifftshift y else y) in
     case np_ifft y of
       Inl e \<Rightarrow> Inl e
     | Inr y1 \<Rightarrow>
         if length x < 2 then Inl IndexError
         else let dt = fdiv (Some 1) (fadd (fsub (last x) (x ! 0)) (fsub (x ! 1) (x ! 0)));
                  x1 = map (\<lambda>k. fmul (Some (real k)) dt) [0..<length y1]
              in Inr (x1, map Re y1))"

definition magnitude_spectrum :: "real list \<Rightarrow> complex list \<Rightarrow> bool \<Rightarrow> error + (npfloat list \<times> real list)" where
  \<comment> \<open>The assignment under \<open>if log_scale\<close> is followed by an unconditional one.\<close>
  "magnitude_spectrum x y log_scale = (case fft1d x y True of
       Inl e \<Rightarrow> Inl e
     | Inr (x1, y1) \<Rightarrow>
         let y_mag = (if log_scale
                      then Some (map (\<lambda>v. fmul (Some 20) (np_log10 (cmod v))) y1) else None);
             y_mag = map cmod y1
         in Inr (x1, y_mag))"

text \<open>
  \<open>scipy.signal.welch\<close> is a parameter \<open>welch y fs\<close> giving the frequencies and the
  power estimates, or an error. \<open>psd\<close> returns either a pair of arrays or one array.
\<close>

datatype 'f psd_result = PsdPair 'f "real list" | PsdArray "npfloat list"

definition psd :: "(real list \<Rightarrow> npfloat \<Rightarrow> error + ('f \<times> real list)) \<Rightarrow> real list \<Rightarrow> real list \<Rightarrow> bool
    \<Rightarrow> error + ('f psd_result \<times> string list)" where
  "psd welch x y log_scale = (case sampling_rate x of
       Inl e \<Rightarrow> Inl e
     | Inr (fs, warns) \<Rightarrow>
         (case welch y fs of
            Inl e \<Rightarrow> Inl e
          | Inr (f, pxx) \<Rightarrow>
              if log_scale
              then Inr (PsdArray (map (\<lambda>p. fmul (Some 10) (np_log10 p)) pxx), warns)
              else Inr (PsdPair f pxx, warns)))"

text \<open>
  \<open>np.fft.fft\<close> computes in floating point, and \<open>sort_frequencies\<close> orders its bins:
  bins that are equal in exact arithmetic (the real parts of conjugate bins of a real
  signal) are ordered by their rounding. So \<open>sort_frequencies\<close> takes the transform
  routine as the parameter \<open>fft\<close>, and \<open>fft1d_with fft\<close> is \<open>fft1d\<close> over that routine;
  with \<open>np_fft\<close> it is \<open>fft1d\<close> itself.
\<close>

definition fft1d_with :: "(complex list \<Rightarrow> error + complex list) \<Rightarrow> real list \<Rightarrow> complex list \<Rightarrow> bool
    \<Rightarrow> error + (npfloat list \<times> complex list)" where
  "fft1d_with fft x y shift = (case fft y of
       Inl e \<Rightarrow> Inl e
     | Inr y1 \<Rightarrow>
         if length x < 2 then Inl IndexError
         else let x1 = fftfreq (length x) (x ! 1 - x ! 0)
              in if shift then Inr (fftshift x1, fftshift y1) else Inr (x1, y1))"

definition np_argsort_complex :: "complex list \<Rightarrow> nat list" where
  \<comment> \<open>\<open>np.argsort\<close> of a complex array orders by real part, then by imaginary part.
      Its default sort is not stable; this one is, which matters on equal values only.\<close>
  "np_argsort_complex zs = sort_key (\<lambda>i. (Re (zs ! i), Im (zs ! i))) [0..<length zs]"

definition sort_frequencies :: "(complex list \<Rightarrow> error + complex list) \<Rightarrow> real list \<Rightarrow> complex list
    \<Rightarrow> error + npfloat list" where
  "sort_frequencies fft x y = (case fft1d_with fft x y False of
       Inl e \<Rightarrow> Inl e
     | Inr (freqs, fourier) \<Rightarrow> take_idx freqs (np_argsort_complex fourier))"

text \<open>
  The ordering the specification describes for \<open>sort_frequencies\<close>: the same frequency
  axis reordered by ascending magnitude of the Fourier transform.
\<close>

definition sort_frequencies_by_magnitude :: "(complex list \<Rightarrow> error + complex list) \<Rightarrow> real list
    \<Rightarrow> complex list \<Rightarrow> error + npfloat list" where
  "sort_frequencies_by_magnitude fft x y = (case fft1d_with fft x y False of
       Inl e \<Rightarrow> Inl e
     | Inr (freqs, fourier) \<Rightarrow>
         take_idx freqs (sort_key (\<lambda>i. cmod (fourier ! i)) [0..<length fourier]))"

subsection \<open>Level crossings\<close>

definition find_nearest_zero_point_idx :: "real list \<Rightarrow> nat list" where
  "find_nearest_zero_point_idx y =
     filter (\<lambda>i. (y ! i \<ge> 0 \<and> y ! (i + 1) \<le> 0) \<or> (y ! i \<le> 0 \<and> y ! (i + 1) \<ge> 0))
       [0..<length y - 1]"

definition find_x_at_value :: "real list \<Rightarrow> real list \<Rightarrow> real \<Rightarrow> error + npfloat list" where
  "find_x_at_value x y val = (let
       leveled_y = map (\<lambda>v. v - val) y;
       xi_before = find_nearest_zero_point_idx leveled_y;
       xi_after = map (\<lambda>i. i + 1) xi_before
     in if length xi_before = 0 then Inr [Some 0]
        else (case take_idx x xi_after of
            Inl e \<Rightarrow> Inl e
          | Inr x_after \<Rightarrow>
             (case take_idx x xi_before of
                Inl e \<Rightarrow> Inl e
              | Inr x_before \<Rightarrow>
                  Inr (map (\<lambda>i. let
                         p = fdiv (Some (leveled_y ! (i + 1) - leveled_y ! i))
                                  (Some (x ! (i + 1) - x ! i));
                         ori = fsub (Some (leveled_y ! (i + 1))) (fmul p (Some (x ! (i + 1))))
                       in fdiv (fneg ori) p) xi_before))))"

definition bandwidth :: "real list \<times> real list \<Rightarrow> real \<Rightarrow> error + (real \<times> real \<times> npfloat \<times> real)" where
  "bandwidth data level = (case data of (x, y) \<Rightarrow>
     (case np_max y of
        Inl e \<Rightarrow> Inl e
      | Inr m \<Rightarrow>
          let half_max = m - level in
          (case find_x_at_value x y half_max of
             Inl e \<Rightarrow> Inl e
           | Inr crossings \<Rightarrow>
               (case crossings of
                  [] \<Rightarrow> Inl IndexError
                | bw # _ \<Rightarrow>
                    (case x of
                       [] \<Rightarrow> Inl IndexError
                     | x0 # _ \<Rightarrow> Inr (x0, half_max, bw, half_max))))))"

subsection \<open>Peak detection\<close>

definition py_get :: "'a list \<Rightarrow> int \<Rightarrow> error + 'a" where
  \<comment> \<open>\<open>a[i]\<close> for a scalar index: a negative index counts from the end.\<close>
  "py_get xs i = (if 0 \<le> i \<and> i < int (length xs) then Inr (xs ! nat i)
                  else if - int (length xs) \<le> i \<and> i < 0 then Inr (xs ! nat (int (length xs) + i))
                  else Inl IndexError)"

definition assign_at :: "'a list \<Rightarrow> nat list \<Rightarrow> 'a \<Rightarrow> 'a list" where
  \<comment> \<open>\<open>a[idx] = v\<close> for an array \<open>idx\<close> of valid indices.\<close>
  "assign_at xs idx v = fold (\<lambda>i acc. acc[i := v]) idx xs"

fun np_split_from :: "nat \<Rightarrow> 'a list \<Rightarrow> nat list \<Rightarrow> 'a list list" where
  "np_split_from off xs [] = [xs]"
| "np_split_from off xs (c # cs) = take (c - off) xs # np_split_from c (drop (c - off) xs) cs"

definition np_split :: "'a list \<Rightarrow> nat list \<Rightarrow> 'a list list" where
  \<comment> \<open>\<open>np.split(a, cuts)\<close>: the pieces \<open>a[:c0], a[c0:c1], ..., a[cn:]\<close>.\<close>
  "np_split xs cuts = np_split_from 0 xs cuts"

definition np_median :: "nat list \<Rightarrow> real" where
  \<comment> \<open>\<open>np.median\<close> of a non-empty array of indices.\<close>
  "np_median xs = (let s = sort xs; n = length s in
     if odd n then real (s ! (n div 2))
     else (real (s ! (n div 2 - 1)) + real (s ! (n div 2))) / 2)"

definition np_argsort :: "real list \<Rightarrow> nat list" where
  \<comment> \<open>\<open>np.argsort\<close>; its default sort is not stable, this one is, which matters on
      equal values only.\<close>
  "np_argsort ys = sort_key (\<lambda>i. ys ! i) [0..<length ys]"

text \<open>The three plateau fixes; each returns the new \<open>dy\<close> and the plateaus left.\<close>

definition fix_leftmost :: "real list \<Rightarrow> nat list list \<Rightarrow> error + (real list \<times> nat list list)" where
  "fix_leftmost dy zero_plateaus = (case zero_plateaus of
       [] \<Rightarrow> Inl IndexError
     | first # rest \<Rightarrow>
         (case first of
            [] \<Rightarrow> Inl IndexError
          | z # _ \<Rightarrow>
              if z = 0
              then (case py_get dy (int (last first) + 1) of
                      Inl e \<Rightarrow> Inl e
                    | Inr v \<Rightarrow> Inr (assign_at dy first v, rest))
              else Inr (dy, zero_plateaus)))"

definition fix_rightmost :: "real list \<Rightarrow> nat list list \<Rightarrow> error + (real list \<times> nat list list)" where
  "fix_rightmost dy zero_plateaus =
     (if length zero_plateaus > 0
      then (case last zero_plateaus of
              [] \<Rightarrow> Inl IndexError
            | z # zs \<Rightarrow>
                if int (last (z # zs)) = int (length dy) - 1
                then (case py_get dy (int z - 1) of
                        Inl e \<Rightarrow> Inl e
                      | Inr v \<Rightarrow> Inr (assign_at dy (z # zs) v, butlast zero_plateaus))
                else Inr (dy, zero_plateaus))
      else Inr (dy, zero_plateaus))"

fun fill_interior :: "real list \<Rightarrow> nat list list \<Rightarrow> error + real list" where
  "fill_interior dy [] = Inr dy"
| "fill_interior dy (plateau # rest) =
     (let median = np_median plateau in
      case plateau of
        [] \<Rightarrow> Inl IndexError
      | z # _ \<Rightarrow>
          (case py_get dy (int z - 1) of
             Inl e \<Rightarrow> Inl e
           | Inr l \<Rightarrow>
               let dy = assign_at dy (filter (\<lambda>i. real i < median) plateau) l in
               (case py_get dy (int (last plateau) + 1) of
                  Inl e \<Rightarrow> Inl e
                | Inr r \<Rightarrow>
                    fill_interior (assign_at dy (filter (\<lambda>i. real i \<ge> median) plateau) r) rest)))"

definition fill_plateaus :: "real list \<Rightarrow> nat list \<Rightarrow> error + real list" where
  "fill_plateaus dy zeros = (let
       zeros_diff = np_diff (map int zeros);
       zeros_diff_not_one = map (\<lambda>i. i + 1) (np_where (\<lambda>d. d \<noteq> 1) zeros_diff);
       zero_plateaus = np_split zeros zeros_diff_not_one
     in case fix_leftmost dy zero_plateaus of
          Inl e \<Rightarrow> Inl e
        | Inr (dy, zero_plateaus) \<Rightarrow>
            (case fix_rightmost dy zero_plateaus of
               Inl e \<Rightarrow> Inl e
             | Inr (dy, zero_plateaus) \<Rightarrow> fill_interior dy zero_plateaus))"

text \<open>
  \<open>peak_candidates\<close> is \<open>peak_indexes\<close> up to the assignment of \<open>peaks\<close> by \<open>np.where\<close>,
  before the pruning. On a flat signal the code returns an empty array at once; here the
  candidates are empty, and the pruning leaves an empty array as it is.
\<close>

definition peak_candidates :: "real list \<Rightarrow> real \<Rightarrow> bool \<Rightarrow> error + nat list" where
  "peak_candidates y thres thres_abs =
     (case (if \<not> thres_abs
            then (case np_max y of
                    Inl e \<Rightarrow> Inl e
                  | Inr mx \<Rightarrow> (case np_min y of
                                 Inl e \<Rightarrow> Inl e
                               | Inr mn \<Rightarrow> Inr (thres * (mx - mn) + mn)))
            else Inr thres) of
        Inl e \<Rightarrow> Inl e
      | Inr thres \<Rightarrow>
          let dy = np_diff y;
              zeros = np_where (\<lambda>d. d = 0) dy
          in if int (length zeros) = int (length y) - 1 then Inr []
             else (case (if length zeros \<noteq> 0 then fill_plateaus dy zeros else Inr dy) of
                     Inl e \<Rightarrow> Inl e
                   | Inr dy \<Rightarrow>
                       Inr (filter (\<lambda>i. (dy @ [0]) ! i < 0 \<and> (0 # dy) ! i > 0 \<and> y ! i > thres)
                              [0..<length y])))"

definition set_slice :: "bool list \<Rightarrow> nat \<Rightarrow> nat \<Rightarrow> bool list" where
  \<comment> \<open>\<open>rem[a:b] = True\<close>; the slice is clipped to the array.\<close>
  "set_slice rem a b = map (\<lambda>i. if a \<le> i \<and> i < b then True else rem ! i) [0..<length rem]"

definition prune_step :: "int \<Rightarrow> bool list \<Rightarrow> nat \<Rightarrow> bool list" where
  \<comment> \<open>The body of the loop \<open>for peak in highest\<close>.\<close>
  "prune_step min_dist rem peak =
     (if \<not> rem ! peak
      then (set_slice rem (nat (max 0 (int peak - min_dist))) (nat (int peak + min_dist + 1)))
             [peak := False]
      else rem)"

fun prune_loop :: "nat list \<Rightarrow> int \<Rightarrow> bool list \<Rightarrow> bool list" where
  "prune_loop [] min_dist rem = rem"
| "prune_loop (peak # highest) min_dist rem = prune_loop highest min_dist (prune_step min_dist rem peak)"

definition peak_indexes :: "bool \<Rightarrow> real list \<Rightarrow> real \<Rightarrow> int \<Rightarrow> bool \<Rightarrow> error + nat list" where
  \<comment> \<open>The first argument says whether \<open>y\<close> is an array of an unsigned integer type.\<close>
  "peak_indexes unsigned_dtype y thres min_dist thres_abs =
     (if unsigned_dtype then Inl (ValueError ''y must be signed'')
      else (case peak_candidates y thres thres_abs of
              Inl e \<Rightarrow> Inl e
            | Inr peaks \<Rightarrow>
                if length peaks > 1 \<and> min_dist > 1
                then let highest = rev (map (\<lambda>j. peaks ! j) (np_argsort (map (\<lambda>p. y ! p) peaks)));
                         rem = assign_at (replicate (length y) True) peaks False;
                         rem = prune_loop highest min_dist rem
                     in Inr (filter (\<lambda>i. \<not> rem ! i) [0..<length y])
                else Inr peaks))"

subsection \<open>Interpolation\<close>

text \<open>
  \<open>np.interp(xnew, xp, fp, left, right)\<close>, after NumPy's documentation: piecewise linear
  through the points \<open>(xp, fp)\<close>, \<open>left\<close> below \<open>xp[0]\<close> (default \<open>fp[0]\<close>) and \<open>right\<close>
  above \<open>xp[-1]\<close> (default \<open>fp[-1]\<close>). It raises on an empty \<open>xp\<close> and on arrays of
  different lengths, and does not check that \<open>xp\<close> increases; the interval of a point in
  range is found here as that of the last sample not above it, which is the interval
  NumPy finds when \<open>xp\<close> increases.
\<close>

definition interp_point :: "real list \<Rightarrow> real list \<Rightarrow> real \<Rightarrow> real \<Rightarrow> real \<Rightarrow> real" where
  "interp_point xp fp lval rval v =
     (if v > last xp then rval
      else if v < xp ! 0 then lval
      else let j = last (filter (\<lambda>i. xp ! i \<le> v) [0..<length xp]) in
           if j = length xp - 1 then fp ! j
           else if xp ! j = v then fp ! j
           else (fp ! (j + 1) - fp ! j) / (xp ! (j + 1) - xp ! j) * (v - xp ! j) + fp ! j)"

definition np_interp :: "real list \<Rightarrow> real list \<Rightarrow> real list \<Rightarrow> real option \<Rightarrow> real option
    \<Rightarrow> error + real list" where
  "np_interp xnew xp fp left right =
     (if xp = [] then Inl (ValueError ''array of sample points is empty'')
      else if length fp \<noteq> length xp then Inl (ValueError ''fp and xp are not of the same length.'')
      else let lval = (case left of None \<Rightarrow> fp ! 0 | Some l \<Rightarrow> l);
               rval = (case right of None \<Rightarrow> last fp | Some r \<Rightarrow> r)
           in Inr (map (interp_point xp fp lval rval) xnew))"

definition np_polyval :: "real list \<Rightarrow> real \<Rightarrow> real" where
  \<comment> \<open>\<open>np.polyval(p, v)\<close>: \<open>p[0]*v**(N-1) + ... + p[N-1]\<close>, by Horner's scheme.\<close>
  "np_polyval p v = foldl (\<lambda>acc c. acc * v + c) 0 p"

text \<open>
  The fits of SciPy and NumPy are parameters. Building an interpolator may raise; once
  built it maps a point to a value. The interpolators of Akima and PCHIP also take the
  flag \<open>extrapolate\<close>; without it they give \<open>nan\<close> out of range, here some value that
  \<open>interpolate\<close> then overwrites.
\<close>

record interp_lib =
  splrep_splev :: "real list \<Rightarrow> real list \<Rightarrow> error + (real \<Rightarrow> real)"
  polyfit :: "real list \<Rightarrow> real list \<Rightarrow> nat \<Rightarrow> error + real list"
  akima :: "real list \<Rightarrow> real list \<Rightarrow> error + (bool \<Rightarrow> real \<Rightarrow> real)"
  barycentric :: "real list \<Rightarrow> real list \<Rightarrow> error + (real \<Rightarrow> real)"
  pchip :: "real list \<Rightarrow> real list \<Rightarrow> error + (bool \<Rightarrow> real \<Rightarrow> real)"

definition extrap_fill :: "error + (bool \<Rightarrow> real \<Rightarrow> real) \<Rightarrow> real list \<Rightarrow> real list \<Rightarrow> real option
    \<Rightarrow> error + real list" where
  \<comment> \<open>The block under \<open>if interpolator_extrap is not None\<close>.\<close>
  "extrap_fill interpolator_extrap x xnew fill_value = (case interpolator_extrap of
       Inl e \<Rightarrow> Inl e
     | Inr f \<Rightarrow>
         let ynew = map (f (fill_value = None)) xnew in
         (case fill_value of
            None \<Rightarrow> Inr ynew
          | Some fv \<Rightarrow>
              (case x of
                 [] \<Rightarrow> Inl IndexError
               | x0 # _ \<Rightarrow>
                   let ynew = map (\<lambda>(v, w). if v < x0 then fv else w) (zip xnew ynew);
                       ynew = map (\<lambda>(v, w). if v > last x then fv else w) (zip xnew ynew)
                   in Inr ynew)))"

definition interpolate :: "interp_lib \<Rightarrow> real list \<Rightarrow> real list \<Rightarrow> real list \<Rightarrow> string \<Rightarrow> real option
    \<Rightarrow> error + real list" where
  "interpolate lib x y xnew method fill_value =
     (if method = ''linear'' then np_interp xnew x y fill_value fill_value
      else if method = ''spline''
        then (case splrep_splev lib x y of Inl e \<Rightarrow> Inl e | Inr f \<Rightarrow> Inr (map f xnew))
      else if method = ''quadratic''
        then (case polyfit lib x y 2 of
                Inl e \<Rightarrow> Inl e
              | Inr coeffs \<Rightarrow> Inr (map (np_polyval coeffs) xnew))
      else if method = ''cubic'' then extrap_fill (akima lib x y) x xnew fill_value
      else if method = ''barycentric''
        then (case barycentric lib x y of Inl e \<Rightarrow> Inl e | Inr f \<Rightarrow> Inr (map f xnew))
      else if method = ''pchip'' then extrap_fill (pchip lib x y) x xnew fill_value
      else Inl (ValueError (''Invalid interpolation method '' @ method)))"

text \<open>
  A library for the examples: every fit of samples of the line \<open>y = 2x + 1\<close> is that
  line.
\<close>

definition line_lib :: interp_lib where
  "line_lib = \<lparr> splrep_splev = (\<lambda>x y. Inr (\<lambda>v. 2 * v + 1)),
                polyfit = (\<lambda>x y d. Inr [0, 2, 1]),
                akima = (\<lambda>x y. Inr (\<lambda>e v. 2 * v + 1)),
                barycentric = (\<lambda>x y. Inr (\<lambda>v. 2 * v + 1)),
                pchip = (\<lambda>x y. Inr (\<lambda>e v. 2 * v + 1)) \<rparr>"

subsection \<open>Peak position and full width at half maximum\<close>

definition np_average :: "real list \<Rightarrow> real list \<Rightarrow> error + real" where
  \<comment> \<open>\<open>np.average(a, weights=w)\<close> for 1-D arrays.\<close>
  "np_average a w =
     (if length a \<noteq> length w then Inl TypeError
      else if sum_list w = 0 then Inl ZeroDivisionError
      else Inr (sum_list (map (\<lambda>(u, v). u * v) (zip a w)) / sum_list w))"

definition xpeak :: "bool \<Rightarrow> real list \<Rightarrow> real list \<Rightarrow> error + real" where
  "xpeak unsigned_dtype x y = (case peak_indexes unsigned_dtype y (3 / 10) 1 False of
       Inl e \<Rightarrow> Inl e
     | Inr peaks \<Rightarrow>
         if length peaks = 1 then py_get x (int (peaks ! 0))
         else np_average x y)"

text \<open>
  The value passed for \<open>xmin\<close> or \<open>xmax\<close>: \<open>None\<close>, a float (Python's \<open>float\<close> or a
  subclass of it such as \<open>np.float64\<close>), an \<open>int\<close>, or a number of another type with its
  value.
\<close>

datatype pyvalue = PyNone | PyFloat real | PyInt int | PyNumber real

fun isinstance_float :: "pyvalue \<Rightarrow> bool" where
  "isinstance_float (PyFloat v) = True"
| "isinstance_float v = False"

fun float_value :: "pyvalue \<Rightarrow> real" where
  "float_value (PyFloat v) = v"
| "float_value (PyInt n) = of_int n"
| "float_value (PyNumber v) = v"
| "float_value PyNone = 0"

fun show_nat :: "nat \<Rightarrow> string" where
  "show_nat n = (if n < 10 then [char_of (48 + n)]
                 else show_nat (n div 10) @ [char_of (48 + n mod 10)])"

definition restrict_data :: "(real \<Rightarrow> bool) \<Rightarrow> real list \<Rightarrow> real list \<Rightarrow> error + (real list \<times> real list)" where
  \<comment> \<open>\<open>indexes = np.where(cond(x))[0]; x = x[indexes]; y = y[indexes]\<close>.\<close>
  "restrict_data cond x y = (let indexes = np_where cond x in
     case take_idx x indexes of
       Inl e \<Rightarrow> Inl e
     | Inr x' \<Rightarrow> (case take_idx y indexes of Inl e \<Rightarrow> Inl e | Inr y' \<Rightarrow> Inr (x', y')))"

text \<open>
  The fitting methods use the models of \<open>cdl.algorithms.fit\<close> and
  \<open>scipy.optimize.leastsq\<close>; the fit of the model named \<open>method\<close> to \<open>x\<close>, \<open>y\<close> from the
  initial \<open>dy\<close>, \<open>sigma\<close>, \<open>mu\<close>, \<open>base\<close>, followed by the model's half-maximum segment, is
  the parameter \<open>fit_segment\<close>.
\<close>

type_synonym segment = "npfloat \<times> real \<times> npfloat \<times> real"

definition fwhm :: "(string \<Rightarrow> real list \<Rightarrow> real list \<Rightarrow> real \<Rightarrow> real \<Rightarrow> real \<Rightarrow> real \<Rightarrow> error + segment)
    \<Rightarrow> bool \<Rightarrow> real list \<times> real list \<Rightarrow> string \<Rightarrow> pyvalue \<Rightarrow> pyvalue
    \<Rightarrow> error + (segment \<times> string list)" where
  "fwhm fit_segment unsigned_dtype data method xmin xmax = (case data of (x, y) \<Rightarrow>
     (case np_max x of Inl e \<Rightarrow> Inl e | Inr max_x \<Rightarrow>
     (case np_min x of Inl e \<Rightarrow> Inl e | Inr min_x \<Rightarrow>
     (case np_max y of Inl e \<Rightarrow> Inl e | Inr max_y \<Rightarrow>
     (case np_min y of Inl e \<Rightarrow> Inl e | Inr min_y \<Rightarrow>
       let dx = max_x - min_x; dy = max_y - min_y; base = min_y;
           sigma = dx * (1 / 10)
       in (case xpeak unsigned_dtype x y of Inl e \<Rightarrow> Inl e | Inr mu \<Rightarrow>
          (case (if isinstance_float xmin
                 then restrict_data (\<lambda>v. v \<ge> float_value xmin) x y else Inr (x, y)) of
             Inl e \<Rightarrow> Inl e
           | Inr (x, y) \<Rightarrow>
          (case (if isinstance_float xmax
                 then restrict_data (\<lambda>v. v \<le> float_value xmax) x y else Inr (x, y)) of
             Inl e \<Rightarrow> Inl e
           | Inr (x, y) \<Rightarrow>
               if method = ''zero-crossing''
               then (case np_min y of Inl e \<Rightarrow> Inl e | Inr min_y' \<Rightarrow>
                      let hmax = dy * (1 / 2) + min_y' in
                      (case find_x_at_value x y hmax of
                         Inl e \<Rightarrow> Inl e
                       | Inr fx \<Rightarrow>
                           let warns = (if length fx \<noteq> 2
                                 then [''Ambiguous zero-crossing points (found ''
                                         @ show_nat (length fx) @ '' points)'']
                                 else [])
                           in (case fx of
                                 [] \<Rightarrow> Inl IndexError
                               | f0 # _ \<Rightarrow> Inr ((f0, hmax, last fx, hmax), warns))))
               else if method \<in> {''gauss'', ''lorentz'', ''voigt''}
               then (case fit_segment method x y dy sigma mu base of
                       Inl e \<Rightarrow> Inl e
                     | Inr seg \<Rightarrow> Inr (seg, []))
               else Inl (ValueError (''Invalid method '' @ method))))))))))"

text \<open>
  Two notions used to state what \<open>find_x_at_value\<close> returns. \<open>crossing x y val i\<close> is the
  abscissa at which the chord through samples \<open>i\<close> and \<open>i + 1\<close> meets the level \<open>val\<close>,
  non-finite when the chord is vertical or horizontal. \<open>on_chord x y val i x0\<close> says, in
  the specification's words, that \<open>x0\<close> solves \<open>y - val = p * (x - x0)\<close> at both samples,
  \<open>p\<close> being the slope \<open>\<Delta>(y - val) / \<Delta>x\<close>.
\<close>

definition crossing :: "real list \<Rightarrow> real list \<Rightarrow> real \<Rightarrow> nat \<Rightarrow> npfloat" where
  "crossing x y val i =
     (if x ! (i + 1) = x ! i \<or> y ! (i + 1) = y ! i then None
      else Some (x ! (i + 1) - (y ! (i + 1) - val) * (x ! (i + 1) - x ! i) / (y ! (i + 1) - y ! i)))"

definition on_chord :: "real list \<Rightarrow> real list \<Rightarrow> real \<Rightarrow> nat \<Rightarrow> real \<Rightarrow> bool" where
  "on_chord x y val i x0 \<longleftrightarrow>
     (let p = (y ! (i + 1) - y ! i) / (x ! (i + 1) - x ! i)
      in y ! (i + 1) - val = p * (x ! (i + 1) - x0) \<and> y ! i - val = p * (x ! i - x0))"

text \<open>
  The invariant of the pruning loop, for the candidates \<open>C\<close> and the peaks \<open>hs\<close> still to
  be visited: every candidate marked in \<open>rem\<close> lies within \<open>md\<close> of an unmarked, already
  visited candidate at least as high, and around an unmarked visited candidate every
  other index within \<open>md\<close> is marked.
\<close>

definition prune_inv :: "real list \<Rightarrow> int \<Rightarrow> nat set \<Rightarrow> bool list \<Rightarrow> nat list \<Rightarrow> bool" where
  "prune_inv y md C rem hs \<longleftrightarrow>
     (\<forall>q\<in>C. rem ! q \<longrightarrow> (\<exists>p\<in>C - set hs. \<not> rem ! p \<and> \<bar>int p - int q\<bar> \<le> md \<and> y ! q \<le> y ! p))
   \<and> (\<forall>p\<in>C - set hs. \<not> rem ! p \<longrightarrow> (\<forall>q<length rem. q \<noteq> p \<and> \<bar>int p - int q\<bar> \<le> md \<longrightarrow> rem ! q))"

section \<open>Properties\<close>

lemma np_diff_nonempty: "2 \<le> length x \<Longrightarrow> np_diff x \<noteq> []"
  by (cases x rule: np_diff.cases) auto

lemma length_np_diff: "length (np_diff x) = length x - 1"
  by (induction x rule: np_diff.induct) auto

lemma hd_np_diff: "2 \<le> length x \<Longrightarrow> hd (np_diff x) = x ! 1 - x ! 0"
  by (cases x rule: np_diff.cases) auto

text \<open>
  C4. \<open>sampling_period\<close> is meant to warn exactly when the steps of \<open>x\<close> are not constant
  within \<open>1e-10\<close>. The code compares the signed maximum of the differences of the steps
  with zero, so steps that only decrease raise no warning: on the strictly increasing
  \<open>x = [0, 2, 3, 4]\<close> the steps are \<open>2, 1, 1\<close>, their differences \<open>-1, 0\<close>, the largest in
  absolute value is \<open>1\<close>, and \<open>sampling_period\<close> returns \<open>x[1] - x[0] = 2\<close> with no warning.
\<close>

theorem sampling_period_misses_decreasing_steps:
  "sampling_period [0, 2, 3, 4] = Inr (2, [])
   \<and> sorted_wrt (<) [0, 2, 3, 4 :: real]
   \<and> np_diff [0, 2, 3, 4 :: real] = [2, 1, 1]
   \<and> np_diff (np_diff [0, 2, 3, 4 :: real]) = [- 1, 0]
   \<and> max_abs_second_difference [0, 2, 3, 4] = 1
   \<and> \<not> max_abs_second_difference [0, 2, 3, 4] \<le> 1 / 10 ^ 10"
proof -
  have d: "np_diff [0, 2, 3, 4 :: real] = [2, 1, 1]"
    by simp
  have dd: "np_diff (np_diff [0, 2, 3, 4 :: real]) = [- 1, 0]"
    by simp
  have m: "max_abs_second_difference [0, 2, 3, 4] = 1"
    by (simp add: max_abs_second_difference_def)
  have s: "sampling_period [0, 2, 3, 4] = Inr (2, [])"
    by (simp add: sampling_period_def np_max_def np_isclose_def)
  show ?thesis
    unfolding m using s d dd by simp
qed

subsection \<open>Fourier transform\<close>

lemma cis_eq_one_iff: "cis a = 1 \<Longrightarrow> (\<exists>j::int. a = of_int j * 2 * pi)"
  by (auto simp: complex_eq_iff cos_one_2pi_int)

lemma unity_root_sum:
  assumes "m < n" and "j < n"
  shows "(\<Sum>k<n. cis (2 * pi * (real m - real j) * real k / real n)) = (if m = j then of_nat n else 0)"
proof (cases "m = j")
  case True
  then show ?thesis by simp
next
  case False
  define z where "z = cis (2 * pi * (real m - real j) / real n)"
  have n: "0 < n" using assms by simp
  have pw: "cis (2 * pi * (real m - real j) * real k / real n) = z ^ k" for k
    by (simp add: z_def DeMoivre algebra_simps)
  have zn: "z ^ n = 1"
  proof -
    have "z ^ n = cis (2 * pi * (real m - real j))"
      using n by (simp add: z_def DeMoivre)
    also have "\<dots> = cis (2 * pi * of_int (int m - int j))"
      by simp
    also have "\<dots> = 1"
      by (rule cis_multiple_2pi) simp
    finally show ?thesis .
  qed
  have z1: "z \<noteq> 1"
  proof
    assume "z = 1"
    then obtain i :: int where i: "2 * pi * (real m - real j) / real n = of_int i * 2 * pi"
      unfolding z_def using cis_eq_one_iff by blast
    then have "(2 * pi) * ((real m - real j) / real n) = (2 * pi) * of_int i"
      by (simp add: algebra_simps)
    then have "(real m - real j) / real n = of_int i"
      by (simp only: mult_cancel_left) simp
    then have "real m - real j = of_int i * real n"
      using n by (simp add: field_simps)
    then have "int m - int j = i * int n"
      by (metis (mono_tags, opaque_lifting) of_int_diff of_int_eq_iff of_int_mult of_int_of_nat_eq)
    moreover have "\<bar>int m - int j\<bar> < int n" "int m - int j \<noteq> 0"
      using assms False by auto
    ultimately have "\<bar>i\<bar> * int n < int n" "i \<noteq> 0"
      by (auto simp: abs_mult)
    then show False
      by (smt (verit) mult_le_cancel_right1 n of_nat_0_less_iff zero_less_abs_iff mult_less_cancel_right2)
  qed
  have "(\<Sum>k<n. z ^ k) = 0"
    using z1 zn by (simp add: sum_gp_strict)
  then show ?thesis
    using False by (simp add: pw)
qed

lemma length_dft [simp]: "length (dft a) = length a"
  by (simp add: dft_def Let_def)

lemma idft_dft: "idft (dft a) = a"
proof (rule nth_equalityI)
  show "length (idft (dft a)) = length a"
    by (simp add: idft_def Let_def)
next
  fix m assume "m < length (idft (dft a))"
  then have m: "m < length a" by (simp add: idft_def Let_def)
  define n where "n = length a"
  have n: "0 < n" using m n_def by auto
  have "(\<Sum>k<n. dft a ! k * cis (2 * pi * real m * real k / real n))
      = (\<Sum>k<n. \<Sum>j<n. a ! j * cis (2 * pi * (real m - real j) * real k / real n))"
  proof (rule sum.cong)
    fix k assume "k \<in> {..<n}"
    then have k: "k < n" by simp
    have "dft a ! k * cis (2 * pi * real m * real k / real n)
        = (\<Sum>j<n. a ! j * cis (- (2 * pi * real j * real k / real n))) * cis (2 * pi * real m * real k / real n)"
      using k by (simp add: dft_def n_def Let_def)
    also have "\<dots> = (\<Sum>j<n. a ! j * (cis (- (2 * pi * real j * real k / real n)) * cis (2 * pi * real m * real k / real n)))"
      by (simp add: sum_distrib_right mult.assoc)
    also have "\<dots> = (\<Sum>j<n. a ! j * cis (2 * pi * (real m - real j) * real k / real n))"
      by (rule sum.cong) (simp_all add: cis_mult algebra_simps diff_divide_distrib)
    finally show "dft a ! k * cis (2 * pi * real m * real k / real n)
        = (\<Sum>j<n. a ! j * cis (2 * pi * (real m - real j) * real k / real n))" .
  qed simp
  also have "\<dots> = (\<Sum>j<n. a ! j * (\<Sum>k<n. cis (2 * pi * (real m - real j) * real k / real n)))"
    by (subst sum.swap) (simp add: sum_distrib_left)
  also have "\<dots> = (\<Sum>j<n. a ! j * (if m = j then of_nat n else 0))"
    by (rule sum.cong) (use m n_def unity_root_sum in auto)
  also have "\<dots> = (\<Sum>j<n. if j = m then a ! j * of_nat n else 0)"
    by (rule sum.cong) auto
  also have "\<dots> = a ! m * of_nat n"
    using m by (simp add: n_def sum.delta)
  finally have "(\<Sum>k<n. dft a ! k * cis (2 * pi * real m * real k / real n)) = a ! m * of_nat n" .
  then show "idft (dft a) ! m = a ! m"
    using m n by (simp add: idft_def n_def Let_def)
qed

lemma cis_minus_pi: "cis (- pi) = - 1"
  by (simp add: complex_eq_iff)

lemma dft2: "dft [a, b] = [a + b, a - b]"
  by (simp add: dft_def Let_def lessThan_Suc numeral_2_eq_2 cis_minus_pi)

lemma fftfreq2: "d \<noteq> 0 \<Longrightarrow> fftfreq (Suc (Suc 0)) d = [Some 0, Some (- 1 / (2 * d))]"
  by (simp add: fftfreq_def Let_def fdiv_def fmul_def)


lemma length_fftfreq: "length (fftfreq n d) = n"
proof -
  have "nat ((int n - 1) div 2 + 1) + n div 2 = n"
    by (cases "even n") (auto elim!: evenE oddE)
  then show ?thesis
    by (simp add: fftfreq_def Let_def)
qed

text \<open>
  C7. For a real-valued \<open>y\<close> and an \<open>x\<close> of the same length with at least two samples,
  \<open>ifft1d(*fft1d(x, y, shift=False), shift=False)\<close> returns \<open>y\<close> as its Y component
  (exactly, in exact arithmetic).
\<close>

theorem ifft1d_fft1d_roundtrip:
  assumes "2 \<le> length x" and "length y = length x"
  shows "\<exists>freqs Y x1. fft1d x (map complex_of_real y) False = Inr (freqs, Y)
           \<and> ifft1d freqs Y False = Inr (x1, y)"
proof -
  let ?c = "map complex_of_real y"
  have ne: "?c \<noteq> []" using assms by auto
  have fwd: "fft1d x ?c False = Inr (fftfreq (length x) (x ! 1 - x ! 0), dft ?c)"
    using assms ne by (simp add: fft1d_def np_fft_def Let_def)
  have ne': "dft ?c \<noteq> []"
    using ne by (metis length_dft length_0_conv)
  have "map Re (idft (dft ?c)) = y"
    by (simp add: idft_dft comp_def)
  then have "\<exists>x1. ifft1d (fftfreq (length x) (x ! 1 - x ! 0)) (dft ?c) False = Inr (x1, y)"
    using assms ne' by (simp add: ifft1d_def np_ifft_def Let_def length_fftfreq)
  with fwd show ?thesis by blast
qed

theorem ifft1d_fft1d_roundtrip_witness:
  "2 \<le> length [0, 1 :: real] \<and> length [3, 5 :: real] = length [0, 1 :: real]
   \<and> fft1d [0, 1] (map complex_of_real [3, 5]) False = Inr ([Some 0, Some (- 1 / 2)], [8, - 2])
   \<and> (\<exists>x1. ifft1d [Some 0, Some (- 1 / 2)] [8, - 2] False = Inr (x1, [3, 5]))"
proof -
  have f: "fft1d [0, 1] [3, 5] False = Inr ([Some 0, Some (- 1 / 2)], [8, - 2])"
    by (simp add: fft1d_def np_fft_def dft2 fftfreq2)
  show ?thesis
    using ifft1d_fft1d_roundtrip [of "[0, 1]" "[3, 5]"] by (simp add: f)
qed

text \<open>
  C1. \<open>magnitude_spectrum\<close> is meant to return \<open>20*log10(|FFT(y)|)\<close> when \<open>log_scale\<close> is
  true. The code gives the same result for both values of \<open>log_scale\<close>, the plain
  magnitude: on \<open>x = [0, 1]\<close>, \<open>y = [1, 0]\<close> it returns the magnitudes \<open>[1, 1]\<close>, whose
  dB values are \<open>[0, 0]\<close>.
\<close>

theorem magnitude_spectrum_log_scale_ignored:
  "magnitude_spectrum x y True = magnitude_spectrum x y False
   \<and> magnitude_spectrum [0, 1] [1, 0] True = Inr ([Some (- 1 / 2), Some 0], [1, 1])
   \<and> map (\<lambda>v. fmul (Some 20) (np_log10 v)) [1, 1] = [Some 0, Some 0]"
proof -
  have "magnitude_spectrum x y True = magnitude_spectrum x y False"
    by (simp add: magnitude_spectrum_def Let_def split: sum.splits prod.splits)
  moreover have "magnitude_spectrum [0, 1] [1, 0] True = Inr ([Some (- 1 / 2), Some 0], [1, 1])"
    by (simp add: magnitude_spectrum_def fft1d_def np_fft_def dft2 fftfreq2 fftshift_def)
  moreover have "map (\<lambda>v. fmul (Some 20) (np_log10 v)) [1, 1] = [Some 0, Some 0]"
    by (simp add: fmul_def np_log10_def)
  ultimately show ?thesis by blast
qed

text \<open>
  C3. \<open>psd\<close> is documented to return the pair (frequencies, power values). With
  \<open>log_scale\<close> true the code never returns a pair: it returns the dB-scaled power
  values alone, whatever Welch's method gives.
\<close>

theorem psd_log_scale_returns_single_array:
  "psd welch x y True \<noteq> Inr (PsdPair f pxx, warns)
   \<and> psd (\<lambda>y fs. Inr ([0, 1 / 2 :: real], [1, 10])) [0, 1, 2] [1, 2, 3] True
       = Inr (PsdArray [Some 0, Some 10], [])"
proof -
  have "psd welch x y True \<noteq> Inr (PsdPair f pxx, warns)"
    by (simp add: psd_def split: sum.splits prod.splits)
  moreover have "psd (\<lambda>y fs. Inr ([0, 1 / 2 :: real], [1, 10])) [0, 1, 2] [1, 2, 3] True
       = Inr (PsdArray [Some 0, Some 10], [])"
    by (simp add: psd_def sampling_rate_def sampling_period_def np_max_def np_isclose_def
        fdiv_def fmul_def np_log10_def)
  ultimately show ?thesis by blast
qed

lemma fft1d_with_np_fft: "fft1d_with np_fft x y shift = fft1d x y shift"
  by (simp add: fft1d_with_def fft1d_def)

text \<open>
  C2. \<open>sort_frequencies\<close> is meant to return the frequencies in ascending order of the
  magnitude of the Fourier transform. The code passes the complex transform itself to
  \<open>np.argsort\<close>, which orders complex numbers by real part and then imaginary part. On
  \<open>x = [0, 1]\<close>, \<open>y = [-1, -2]\<close> the transform is \<open>[-3, 1]\<close>, whatever routine computes
  it: the code returns \<open>[0, -0.5]\<close>, which is ascending neither by magnitude of the
  transform (that order is \<open>[-0.5, 0]\<close>) nor by frequency.
\<close>

theorem sort_frequencies_not_by_magnitude:
  "fft [- 1, - 2] = Inr [- 3, 1] \<longrightarrow>
     sort_frequencies fft [0, 1] [- 1, - 2] = Inr [Some 0, Some (- 1 / 2)]
   \<and> sort_frequencies_by_magnitude fft [0, 1] [- 1, - 2] = Inr [Some (- 1 / 2), Some 0]
   \<and> sort_frequencies fft [0, 1] [- 1, - 2] \<noteq> sort_frequencies_by_magnitude fft [0, 1] [- 1, - 2]
   \<and> \<not> sorted [0, - 1 / 2 :: real]"
proof
  assume f: "fft [- 1, - 2] = Inr [- 3, 1]"
  have a: "sort_frequencies fft [0, 1] [- 1, - 2] = Inr [Some 0, Some (- 1 / 2)]"
    by (simp add: sort_frequencies_def fft1d_with_def f fftfreq2 take_idx_def
        np_argsort_complex_def)
  have b: "sort_frequencies_by_magnitude fft [0, 1] [- 1, - 2] = Inr [Some (- 1 / 2), Some 0]"
    by (simp add: sort_frequencies_by_magnitude_def fft1d_with_def f fftfreq2 take_idx_def)
  show "sort_frequencies fft [0, 1] [- 1, - 2] = Inr [Some 0, Some (- 1 / 2)]
   \<and> sort_frequencies_by_magnitude fft [0, 1] [- 1, - 2] = Inr [Some (- 1 / 2), Some 0]
   \<and> sort_frequencies fft [0, 1] [- 1, - 2] \<noteq> sort_frequencies_by_magnitude fft [0, 1] [- 1, - 2]
   \<and> \<not> sorted [0, - 1 / 2 :: real]"
    unfolding a b by simp
qed

theorem sort_frequencies_not_by_magnitude_witness:
  "np_fft [- 1, - 2] = Inr [- 3, 1]
   \<and> sort_frequencies np_fft [0, 1] [- 1, - 2] = Inr [Some 0, Some (- 1 / 2)]
   \<and> sort_frequencies_by_magnitude np_fft [0, 1] [- 1, - 2] = Inr [Some (- 1 / 2), Some 0]"
proof -
  have f: "np_fft [- 1, - 2] = Inr [- 3, 1]"
    by (simp add: np_fft_def dft2)
  from sort_frequencies_not_by_magnitude [of np_fft] f show ?thesis
    by blast
qed

subsection \<open>Level crossings and bandwidth\<close>

lemma zero_point_idx_iff:
  "i \<in> set (find_nearest_zero_point_idx y) \<longleftrightarrow>
     i + 1 < length y \<and> ((y ! i \<ge> 0 \<and> y ! (i + 1) \<le> 0) \<or> (y ! i \<le> 0 \<and> y ! (i + 1) \<ge> 0))"
  by (auto simp: find_nearest_zero_point_idx_def)

lemma zero_point_idx_sorted: "sorted_wrt (<) (find_nearest_zero_point_idx y)"
  by (simp add: find_nearest_zero_point_idx_def sorted_wrt_filter)

lemma intercept_algebra:
  fixes dx dy la xa :: real
  assumes "dx \<noteq> 0" and "dy \<noteq> 0"
  shows "- (la - dy / dx * xa) / (dy / dx) = xa - la * dx / dy"
  using assms by (simp add: field_simps)

lemma interpolation_step:
  "(let p = fdiv (Some ((ya - val) - (yb - val))) (Some (xa - xb));
        ori = fsub (Some (ya - val)) (fmul p (Some xa))
    in fdiv (fneg ori) p)
   = (if xa = xb \<or> ya = yb then None
      else Some (xa - (ya - val) * (xa - xb) / (ya - yb)))"
proof (cases "xa = xb \<or> ya = yb")
  case True
  then show ?thesis
    by (auto simp: fdiv_def fsub_def fmul_def fneg_def Let_def)
next
  case False
  then have nz: "xa - xb \<noteq> 0" "ya - yb \<noteq> 0" by simp_all
  have p: "fdiv (Some ((ya - val) - (yb - val))) (Some (xa - xb)) = Some ((ya - yb) / (xa - xb))"
    using nz by (simp add: fdiv_def)
  have "fdiv (fneg (fsub (Some (ya - val)) (fmul (Some ((ya - yb) / (xa - xb))) (Some xa))))
          (Some ((ya - yb) / (xa - xb)))
        = Some (- ((ya - val) - (ya - yb) / (xa - xb) * xa) / ((ya - yb) / (xa - xb)))"
    using nz by (simp add: fdiv_def fsub_def fmul_def fneg_def)
  also have "\<dots> = Some (xa - (ya - val) * (xa - xb) / (ya - yb))"
    using intercept_algebra [OF nz] by simp
  finally show ?thesis
    using False nz by (simp add: Let_def fdiv_def [of "Some (ya - yb)"])
qed

lemma find_x_at_value_eq:
  assumes "length x = length y"
  shows "find_x_at_value x y val =
           (let br = find_nearest_zero_point_idx (map (\<lambda>v. v - val) y)
            in if br = [] then Inr [Some 0] else Inr (map (crossing x y val) br))"
proof -
  let ?ly = "map (\<lambda>v. v - val) y"
  let ?br = "find_nearest_zero_point_idx ?ly"
  have rng: "i + 1 < length y" if "i \<in> set ?br" for i
    using that by (simp add: zero_point_idx_iff)
  have a: "take_idx x (map (\<lambda>i. i + 1) ?br) = Inr (map (\<lambda>i. x ! i) (map (\<lambda>i. i + 1) ?br))"
    using rng assms by (auto simp: take_idx_def list_all_iff)
  have b: "take_idx x ?br = Inr (map (\<lambda>i. x ! i) ?br)"
    using rng assms by (fastforce simp: take_idx_def list_all_iff)
  have el: "(let p = fdiv (Some (?ly ! (i + 1) - ?ly ! i)) (Some (x ! (i + 1) - x ! i));
                 ori = fsub (Some (?ly ! (i + 1))) (fmul p (Some (x ! (i + 1))))
             in fdiv (fneg ori) p) = crossing x y val i" if "i \<in> set ?br" for i
  proof -
    have "i + 1 < length y" using that by (rule rng)
    then have l: "?ly ! (i + 1) = y ! (i + 1) - val" "?ly ! i = y ! i - val"
      by simp_all
    show ?thesis
      unfolding l interpolation_step crossing_def ..
  qed
  have "map (\<lambda>i. let p = fdiv (Some (?ly ! (i + 1) - ?ly ! i)) (Some (x ! (i + 1) - x ! i));
                 ori = fsub (Some (?ly ! (i + 1))) (fmul p (Some (x ! (i + 1))))
             in fdiv (fneg ori) p) ?br = map (crossing x y val) ?br"
    using el by (simp cong: map_cong)
  then show ?thesis
    unfolding find_x_at_value_def Let_def a b by (simp add: Let_def)
qed

lemma crossing_on_line:
  assumes "x ! (i + 1) \<noteq> x ! i" and "y ! (i + 1) \<noteq> y ! i"
  shows "\<exists>x0. crossing x y val i = Some x0
          \<and> y ! (i + 1) - val = (y ! (i + 1) - y ! i) / (x ! (i + 1) - x ! i) * (x ! (i + 1) - x0)
          \<and> y ! i - val = (y ! (i + 1) - y ! i) / (x ! (i + 1) - x ! i) * (x ! i - x0)"
proof -
  define dx where "dx = x ! (i + 1) - x ! i"
  define dy where "dy = y ! (i + 1) - y ! i"
  define la where "la = y ! (i + 1) - val"
  have nz: "dx \<noteq> 0" "dy \<noteq> 0" using assms by (simp_all add: dx_def dy_def)
  have c: "crossing x y val i = Some (x ! (i + 1) - la * dx / dy)"
    using assms by (simp add: crossing_def dx_def dy_def la_def)
  have 1: "la = dy / dx * (x ! (i + 1) - (x ! (i + 1) - la * dx / dy))"
    using nz by simp
  have "dy / dx * (x ! i - (x ! (i + 1) - la * dx / dy)) = dy / dx * (la * dx / dy - dx)"
    by (simp add: dx_def)
  also have "\<dots> = la - dy"
    using nz by (simp add: field_simps)
  also have "\<dots> = y ! i - val"
    by (simp add: la_def dy_def)
  finally have 2: "y ! i - val = dy / dx * (x ! i - (x ! (i + 1) - la * dx / dy))" by simp
  show ?thesis
    using c 1 2 unfolding dx_def dy_def la_def by blast
qed

lemma find_x_at_value_no_bracket:
  "find_nearest_zero_point_idx (map (\<lambda>v. v - val) y) = [] \<Longrightarrow> find_x_at_value x y val = Inr [Some 0]"
  by (simp add: find_x_at_value_def)

lemma bracket_iff:
  "i \<in> set (find_nearest_zero_point_idx (map (\<lambda>v. v - val) y)) \<longleftrightarrow>
     i + 1 < length y \<and> ((y ! i \<ge> val \<and> y ! (i + 1) \<le> val) \<or> (y ! i \<le> val \<and> y ! (i + 1) \<ge> val))"
  by (auto simp: zero_point_idx_iff)

lemma crossing_cases:
  "if x ! (i + 1) = x ! i \<or> y ! (i + 1) = y ! i then crossing x y val i = None
   else \<exists>x0. crossing x y val i = Some x0 \<and> on_chord x y val i x0"
proof (cases "x ! (i + 1) = x ! i \<or> y ! (i + 1) = y ! i")
  case True
  then show ?thesis
    by (simp only: crossing_def if_True)
next
  case False
  then have "x ! (i + 1) \<noteq> x ! i" "y ! (i + 1) \<noteq> y ! i"
    by simp_all
  from crossing_on_line [OF this, of val] show ?thesis
    using False by (simp only: if_False on_chord_def Let_def)
qed

lemma find_x_at_value_brackets:
  assumes "length x = length y"
  shows "\<exists>r br. find_x_at_value x y val = Inr r
           \<and> sorted_wrt (<) br
           \<and> (\<forall>i. i \<in> set br \<longleftrightarrow> i + 1 < length y
                  \<and> ((y ! i \<ge> val \<and> y ! (i + 1) \<le> val) \<or> (y ! i \<le> val \<and> y ! (i + 1) \<ge> val)))
           \<and> (br = [] \<longrightarrow> r = [Some 0])
           \<and> (br \<noteq> [] \<longrightarrow> length r = length br
                \<and> (\<forall>k<length br.
                      if x ! (br ! k + 1) = x ! (br ! k) \<or> y ! (br ! k + 1) = y ! (br ! k)
                      then r ! k = None
                      else \<exists>x0. r ! k = Some x0 \<and> on_chord x y val (br ! k) x0))"
proof -
  define br where "br = find_nearest_zero_point_idx (map (\<lambda>v. v - val) y)"
  define r where "r = (if br = [] then [Some 0] else map (crossing x y val) br)"
  have res: "find_x_at_value x y val = Inr r"
    using find_x_at_value_eq [OF assms, of val] by (simp add: r_def br_def Let_def)
  have srt: "sorted_wrt (<) br"
    unfolding br_def by (rule zero_point_idx_sorted)
  have mem: "\<forall>i. i \<in> set br \<longleftrightarrow> i + 1 < length y
                  \<and> ((y ! i \<ge> val \<and> y ! (i + 1) \<le> val) \<or> (y ! i \<le> val \<and> y ! (i + 1) \<ge> val))"
    unfolding br_def by (intro allI bracket_iff)
  have empty: "br = [] \<longrightarrow> r = [Some 0]"
    by (simp add: r_def)
  have elems: "br \<noteq> [] \<longrightarrow> length r = length br
                \<and> (\<forall>k<length br.
                      if x ! (br ! k + 1) = x ! (br ! k) \<or> y ! (br ! k + 1) = y ! (br ! k)
                      then r ! k = None
                      else \<exists>x0. r ! k = Some x0 \<and> on_chord x y val (br ! k) x0)"
  proof (intro impI conjI allI)
    assume ne: "br \<noteq> []"
    then show "length r = length br" by (simp add: r_def)
    fix k assume k: "k < length br"
    have rk: "r ! k = crossing x y val (br ! k)"
      using k ne by (simp add: r_def)
    show "if x ! (br ! k + 1) = x ! (br ! k) \<or> y ! (br ! k + 1) = y ! (br ! k)
          then r ! k = None
          else \<exists>x0. r ! k = Some x0 \<and> on_chord x y val (br ! k) x0"
      unfolding rk by (rule crossing_cases)
  qed
  show ?thesis
    apply (rule exI [of _ r])
    apply (rule exI [of _ br])
    apply (intro conjI)
        apply (rule res)
       apply (rule srt)
      apply (rule mem)
     apply (rule empty)
    apply (rule elems)
    done
qed

text \<open>
  C8. \<open>find_x_at_value\<close> shifts \<open>y\<close> by \<open>val\<close> and finds the brackets: the indices \<open>i\<close>, in
  ascending order, at which consecutive samples straddle or touch the level. Without a
  bracket it returns \<open>[0.0]\<close> and raises nothing. With \<open>x\<close> and \<open>y\<close> of equal length it
  returns one value per bracket: the intercept \<open>x0\<close> of the chord through the two
  samples, which solves \<open>y - val = p * (x - x0)\<close> for the slope \<open>p = \<Delta>(y - val) / \<Delta>x\<close>, and
  a non-finite float where the chord is vertical or horizontal. On \<open>x = [0,1,2,3]\<close>,
  \<open>y = [-1,1,3,5]\<close>, \<open>val = 0\<close> it returns \<open>[0.5]\<close>.
\<close>

theorem find_x_at_value_interpolates:
  "(find_nearest_zero_point_idx (map (\<lambda>v. v - val) y) = [] \<longrightarrow> find_x_at_value x y val = Inr [Some 0])
   \<and> (length x = length y \<longrightarrow>
        (\<exists>r br. find_x_at_value x y val = Inr r
           \<and> sorted_wrt (<) br
           \<and> (\<forall>i. i \<in> set br \<longleftrightarrow> i + 1 < length y
                  \<and> ((y ! i \<ge> val \<and> y ! (i + 1) \<le> val) \<or> (y ! i \<le> val \<and> y ! (i + 1) \<ge> val)))
           \<and> (br = [] \<longrightarrow> r = [Some 0])
           \<and> (br \<noteq> [] \<longrightarrow> length r = length br
                \<and> (\<forall>k<length br.
                      if x ! (br ! k + 1) = x ! (br ! k) \<or> y ! (br ! k + 1) = y ! (br ! k)
                      then r ! k = None
                      else \<exists>x0. r ! k = Some x0 \<and> on_chord x y val (br ! k) x0))))
   \<and> find_x_at_value [0, 1, 2, 3] [- 1, 1, 3, 5] 0 = Inr [Some (1 / 2)]"
proof (intro conjI impI)
  assume "find_nearest_zero_point_idx (map (\<lambda>v. v - val) y) = []"
  then show "find_x_at_value x y val = Inr [Some 0]"
    by (rule find_x_at_value_no_bracket)
next
  show "find_x_at_value [0, 1, 2, 3] [- 1, 1, 3, 5] 0 = Inr [Some (1 / 2)]"
    by code_simp
next
  assume "length x = length y"
  then show "\<exists>r br. find_x_at_value x y val = Inr r
           \<and> sorted_wrt (<) br
           \<and> (\<forall>i. i \<in> set br \<longleftrightarrow> i + 1 < length y
                  \<and> ((y ! i \<ge> val \<and> y ! (i + 1) \<le> val) \<or> (y ! i \<le> val \<and> y ! (i + 1) \<ge> val)))
           \<and> (br = [] \<longrightarrow> r = [Some 0])
           \<and> (br \<noteq> [] \<longrightarrow> length r = length br
                \<and> (\<forall>k<length br.
                      if x ! (br ! k + 1) = x ! (br ! k) \<or> y ! (br ! k + 1) = y ! (br ! k)
                      then r ! k = None
                      else \<exists>x0. r ! k = Some x0 \<and> on_chord x y val (br ! k) x0))"
    by (rule find_x_at_value_brackets)
qed

theorem find_x_at_value_interpolates_witness:
  "find_nearest_zero_point_idx (map (\<lambda>v. v - 0) [1, 2]) = []
   \<and> find_x_at_value [0, 1] [1, 2] 0 = Inr [Some 0]
   \<and> length [0, 1, 2, 3 :: real] = length [- 1, 1, 3, 5 :: real]
   \<and> (\<exists>r. find_x_at_value [0, 1, 2, 3] [- 1, 1, 3, 5] 0 = Inr r)"
proof -
  have e: "find_nearest_zero_point_idx (map (\<lambda>v. v - 0) [1, 2]) = []"
    by code_simp
  have l: "length [0, 1, 2, 3 :: real] = length [- 1, 1, 3, 5 :: real]"
    by simp
  from find_x_at_value_interpolates [of 0 "[1, 2]" "[0, 1]"] e
  have 1: "find_x_at_value [0, 1] [1, 2] 0 = Inr [Some 0]"
    by blast
  from find_x_at_value_interpolates [of 0 "[- 1, 1, 3, 5]" "[0, 1, 2, 3]"] l
  have 2: "\<exists>r. find_x_at_value [0, 1, 2, 3] [- 1, 1, 3, 5] 0 = Inr r"
    by blast
  show ?thesis
    using e l 1 2 by blast
qed

text \<open>
  C6. The claim takes both ends of the segment from the first pair of crossings. The
  code takes the left end from the first sample of \<open>x\<close>: on \<open>x = [0,1,2,3,4]\<close>,
  \<open>y = [0,4,8,4,0]\<close>, \<open>level = 3\<close> the crossings of the level \<open>5\<close> are \<open>1.25\<close> and \<open>2.75\<close>,
  and \<open>bandwidth\<close> returns \<open>(0, 5, 1.25, 5)\<close>.
\<close>

theorem bandwidth_not_crossing_pair:
  "bandwidth ([0, 1, 2, 3, 4], [0, 4, 8, 4, 0]) 3 = Inr (0, 5, Some (5 / 4), 5)
   \<and> find_x_at_value [0, 1, 2, 3, 4] [0, 4, 8, 4, 0] (Max (set [0, 4, 8, 4, 0]) - 3)
       = Inr [Some (5 / 4), Some (11 / 4)]
   \<and> \<not> (\<exists>l r rest. find_x_at_value [0, 1, 2, 3, 4] [0, 4, 8, 4, 0] (Max (set [0, 4, 8, 4, 0]) - 3)
                      = Inr (Some l # Some r # rest)
                 \<and> bandwidth ([0, 1, 2, 3, 4], [0, 4, 8, 4, 0]) 3
                      = Inr (l, Max (set [0, 4, 8, 4, 0]) - 3, Some r, Max (set [0, 4, 8, 4, 0]) - 3))"
proof -
  have a: "bandwidth ([0, 1, 2, 3, 4], [0, 4, 8, 4, 0]) 3 = Inr (0, 5, Some (5 / 4), 5)"
    by code_simp
  have m: "Max (set [0, 4, 8, 4, 0 :: real]) - 3 = 5"
    by simp
  have b: "find_x_at_value [0, 1, 2, 3, 4] [0, 4, 8, 4, 0] 5 = Inr [Some (5 / 4), Some (11 / 4)]"
    by code_simp
  show ?thesis
    unfolding m a b by simp
qed

text \<open>
  C6, amended. For \<open>x\<close> and \<open>y\<close> of equal length, \<open>y\<close> not empty, \<open>bandwidth\<close> returns the
  segment \<open>(x[0], half_level, c, half_level)\<close> where \<open>half_level = max(y) - level\<close> and \<open>c\<close>
  is the first value returned by \<open>find_x_at_value(x, y, half_level)\<close>.
\<close>

theorem bandwidth_from_first_sample:
  assumes "length x = length y" and "y \<noteq> []"
  shows "\<exists>c cs. find_x_at_value x y (Max (set y) - level) = Inr (c # cs)
           \<and> bandwidth (x, y) level = Inr (x ! 0, Max (set y) - level, c, Max (set y) - level)"
proof -
  let ?h = "Max (set y) - level"
  let ?br = "find_nearest_zero_point_idx (map (\<lambda>v. v - ?h) y)"
  have "find_x_at_value x y ?h = Inr (if ?br = [] then [Some 0] else map (crossing x y ?h) ?br)"
    using find_x_at_value_eq [OF assms(1), of ?h] by (simp add: Let_def)
  moreover have "(if ?br = [] then [Some 0] else map (crossing x y ?h) ?br) \<noteq> []"
    by simp
  ultimately obtain c cs where c: "find_x_at_value x y ?h = Inr (c # cs)"
    by (cases "if ?br = [] then [Some 0] else map (crossing x y ?h) ?br") auto
  from assms obtain x0 xs where x: "x = x0 # xs"
    by (cases x) auto
  have "bandwidth (x, y) level = Inr (x ! 0, ?h, c, ?h)"
    using assms(2) c by (simp add: bandwidth_def np_max_def x Let_def)
  with c show ?thesis by blast
qed

theorem bandwidth_from_first_sample_witness:
  "length [0, 1, 2, 3, 4 :: real] = length [0, 4, 8, 4, 0 :: real] \<and> [0, 4, 8, 4, 0 :: real] \<noteq> []
   \<and> (\<exists>c cs. find_x_at_value [0, 1, 2, 3, 4] [0, 4, 8, 4, 0] 5 = Inr (c # cs)
           \<and> bandwidth ([0, 1, 2, 3, 4], [0, 4, 8, 4, 0]) 3 = Inr (0, 5, c, 5))"
  using bandwidth_from_first_sample [of "[0, 1, 2, 3, 4]" "[0, 4, 8, 4, 0]" 3] by simp

subsection \<open>Peak detection\<close>

lemma length_assign_at [simp]: "length (assign_at xs idx v) = length xs"
  unfolding assign_at_def by (induction idx arbitrary: xs) auto

lemma nth_assign_at:
  "i < length xs \<Longrightarrow> assign_at xs idx v ! i = (if i \<in> set idx then v else xs ! i)"
  unfolding assign_at_def
proof (induction idx arbitrary: xs)
  case Nil
  then show ?case by simp
next
  case (Cons a idx)
  then show ?case by (auto simp: nth_list_update)
qed

lemma length_set_slice [simp]: "length (set_slice rem a b) = length rem"
  by (simp add: set_slice_def)

lemma nth_set_slice:
  "i < length rem \<Longrightarrow> set_slice rem a b ! i = ((a \<le> i \<and> i < b) \<or> rem ! i)"
  by (auto simp: set_slice_def)

lemma length_fix_leftmost:
  "fix_leftmost dy zp = Inr (dy', zp') \<Longrightarrow> length dy' = length dy"
  by (auto simp: fix_leftmost_def split: list.splits if_splits sum.splits)

lemma length_fix_rightmost:
  "fix_rightmost dy zp = Inr (dy', zp') \<Longrightarrow> length dy' = length dy"
  by (auto simp: fix_rightmost_def split: list.splits if_splits sum.splits)

lemma length_fill_interior:
  "fill_interior dy zp = Inr dy' \<Longrightarrow> length dy' = length dy"
proof (induction zp arbitrary: dy)
  case Nil
  then show ?case by simp
next
  case (Cons p zp)
  then show ?case
    by (fastforce simp: Let_def split: list.splits sum.splits)
qed

lemma length_fill_plateaus:
  "fill_plateaus dy zeros = Inr dy' \<Longrightarrow> length dy' = length dy"
  unfolding fill_plateaus_def Let_def
  by (auto split: sum.splits prod.splits
      dest!: length_fix_leftmost length_fix_rightmost length_fill_interior)

lemma peak_candidates_props:
  assumes "peak_candidates y thres thres_abs = Inr peaks"
  shows "sorted_wrt (<) peaks" and "set peaks \<subseteq> {..<length y}"
    and "\<And>p. p \<in> set peaks \<Longrightarrow> Suc p \<notin> set peaks"
proof -
  let ?dy = "np_diff y"
  let ?zeros = "np_where (\<lambda>d. d = 0) ?dy"
  from assms obtain t where
    rest: "(if int (length ?zeros) = int (length y) - 1 then Inr []
            else (case (if length ?zeros \<noteq> 0 then fill_plateaus ?dy ?zeros else Inr ?dy) of
                    Inl e \<Rightarrow> Inl e
                  | Inr dy \<Rightarrow>
                      Inr (filter (\<lambda>i. (dy @ [0]) ! i < 0 \<and> (0 # dy) ! i > 0 \<and> y ! i > t)
                             [0..<length y]))) = Inr peaks"
    unfolding peak_candidates_def Let_def by (auto split: sum.splits)
  have "peaks = [] \<or> (\<exists>(dy :: real list) t. length dy = length y - 1 \<and>
          peaks = filter (\<lambda>i. (dy @ [0]) ! i < 0 \<and> (0 # dy) ! i > 0 \<and> y ! i > t) [0..<length y])"
  proof (cases "int (length ?zeros) = int (length y) - 1")
    case True
    then show ?thesis using rest by simp
  next
    case False
    with rest obtain dy where
      dy: "(if length ?zeros \<noteq> 0 then fill_plateaus ?dy ?zeros else Inr ?dy) = Inr dy"
      and pk: "peaks = filter (\<lambda>i. (dy @ [0]) ! i < 0 \<and> (0 # dy) ! i > 0 \<and> y ! i > t) [0..<length y]"
      by (auto split: sum.splits)
    have "length dy = length ?dy"
      using dy by (auto split: if_splits dest: length_fill_plateaus)
    then have "length dy = length y - 1"
      by (simp add: length_np_diff)
    with pk show ?thesis
      by (intro disjI2 exI [of _ dy] exI [of _ t] conjI)
  qed
  then consider "peaks = []"
    | dy :: "real list" and t where "length dy = length y - 1"
        "peaks = filter (\<lambda>i. (dy @ [0]) ! i < 0 \<and> (0 # dy) ! i > 0 \<and> y ! i > t) [0..<length y]"
    by blast
  then have "sorted_wrt (<) peaks \<and> set peaks \<subseteq> {..<length y} \<and> (\<forall>p. p \<in> set peaks \<longrightarrow> Suc p \<notin> set peaks)"
  proof cases
    case 1
    then show ?thesis by simp
  next
    case 2
    have "Suc p \<notin> set peaks" if "p \<in> set peaks" for p
    proof
      assume "Suc p \<in> set peaks"
      then have a: "Suc p < length y" "(0 # dy) ! Suc p > 0"
        by (simp_all add: 2(2))
      then have "p < length dy" using 2(1) by simp
      then have "(dy @ [0]) ! p = dy ! p"
        by (simp add: nth_append)
      moreover have "(dy @ [0]) ! p < 0"
        using that by (simp add: 2(2))
      ultimately show False using a(2) by simp
    qed
    then show ?thesis
      by (auto simp: 2(2) sorted_wrt_filter)
  qed
  then show "sorted_wrt (<) peaks" and "set peaks \<subseteq> {..<length y}"
    and "\<And>p. p \<in> set peaks \<Longrightarrow> Suc p \<notin> set peaks"
    by blast+
qed

lemma prune_loop_step: "prune_loop (h # hs) md rem = prune_loop hs md (prune_step md rem h)"
  by simp

lemma length_prune_step [simp]: "length (prune_step md rem h) = length rem"
  by (simp add: prune_step_def)

lemma length_prune_loop [simp]: "length (prune_loop hs md rem) = length rem"
  by (induction hs arbitrary: rem) (simp_all del: prune_loop.simps(2) add: prune_loop_step)

lemma nth_prune_step_active:
  assumes "i < length rem" and "\<not> rem ! h"
  shows "prune_step md rem h ! i = (i \<noteq> h \<and> (\<bar>int h - int i\<bar> \<le> md \<or> rem ! i))"
proof (cases "i = h")
  case True
  then show ?thesis using assms by (simp add: prune_step_def)
next
  case False
  have "(nat (max 0 (int h - md)) \<le> i \<and> i < nat (int h + md + 1)) \<longleftrightarrow> \<bar>int h - int i\<bar> \<le> md"
    by auto
  then show ?thesis
    using False assms by (simp add: prune_step_def nth_set_slice)
qed

lemma prune_step_mono:
  assumes "i < length rem" and "rem ! i"
  shows "prune_step md rem h ! i"
proof (cases "rem ! h")
  case True
  then show ?thesis using assms by (simp add: prune_step_def)
next
  case False
  then have "i \<noteq> h" using assms by auto
  then show ?thesis
    using assms False by (simp add: nth_prune_step_active)
qed

lemma prune_loop_mono:
  "i < length rem \<Longrightarrow> rem ! i \<Longrightarrow> prune_loop hs md rem ! i"
proof (induction hs arbitrary: rem)
  case Nil
  then show ?case by simp
next
  case (Cons h hs)
  have "prune_step md rem h ! i"
    using Cons.prems by (rule prune_step_mono)
  then show ?case
    unfolding prune_loop_step using Cons.IH [of "prune_step md rem h"] Cons.prems(1) by simp
qed

lemma prune_invI:
  assumes "\<And>q. q \<in> C \<Longrightarrow> rem ! q \<Longrightarrow>
             \<exists>p\<in>C - set hs. \<not> rem ! p \<and> \<bar>int p - int q\<bar> \<le> md \<and> y ! q \<le> y ! p"
    and "\<And>p q. p \<in> C - set hs \<Longrightarrow> \<not> rem ! p \<Longrightarrow> q < length rem \<Longrightarrow> q \<noteq> p
             \<Longrightarrow> \<bar>int p - int q\<bar> \<le> md \<Longrightarrow> rem ! q"
  shows "prune_inv y md C rem hs"
  unfolding prune_inv_def
proof (intro conjI ballI impI allI)
  fix q assume "q \<in> C" "rem ! q"
  then show "\<exists>p\<in>C - set hs. \<not> rem ! p \<and> \<bar>int p - int q\<bar> \<le> md \<and> y ! q \<le> y ! p"
    by (rule assms(1))
next
  fix p q assume "p \<in> C - set hs" "\<not> rem ! p" "q < length rem" "q \<noteq> p \<and> \<bar>int p - int q\<bar> \<le> md"
  then show "rem ! q"
    using assms(2) [of p q] by simp
qed

lemma prune_inv_witness:
  assumes "prune_inv y md C rem hs" and "q \<in> C" and "rem ! q"
  shows "\<exists>p\<in>C - set hs. \<not> rem ! p \<and> \<bar>int p - int q\<bar> \<le> md \<and> y ! q \<le> y ! p"
  using assms unfolding prune_inv_def by simp

lemma prune_inv_cleared:
  assumes "prune_inv y md C rem hs" and "p \<in> C - set hs" and "\<not> rem ! p"
    and "q < length rem" and "q \<noteq> p" and "\<bar>int p - int q\<bar> \<le> md"
  shows "rem ! q"
  using assms unfolding prune_inv_def by simp


lemma prune_inv_step:
  assumes inv: "prune_inv y md C rem (h # hs)"
    and h: "h \<in> C" "h \<notin> set hs"
    and C: "C \<subseteq> {..<length rem}"
    and lower: "\<forall>q\<in>set hs. y ! q \<le> y ! h"
    and hs: "set hs \<subseteq> C"
  shows "prune_inv y md C (prune_step md rem h) hs"
proof (cases "rem ! h")
  case True
  then have same: "prune_step md rem h = rem"
    by (simp add: prune_step_def)
  have a: "\<exists>p\<in>C - set hs. \<not> rem ! p \<and> \<bar>int p - int q\<bar> \<le> md \<and> y ! q \<le> y ! p"
    if "q \<in> C" "rem ! q" for q
  proof -
    from prune_inv_witness [OF inv that] obtain p where
      "p \<in> C - set (h # hs)" "\<not> rem ! p" "\<bar>int p - int q\<bar> \<le> md" "y ! q \<le> y ! p"
      by blast
    moreover from this have "p \<in> C - set hs" by simp
    ultimately show ?thesis by blast
  qed
  have b: "rem ! q" if "p \<in> C - set hs" "\<not> rem ! p" "q < length rem" "q \<noteq> p" "\<bar>int p - int q\<bar> \<le> md" for p q
  proof -
    have "p \<noteq> h" using that(2) True by auto
    then have "p \<in> C - set (h # hs)" using that(1) by simp
    then show ?thesis
      using that by (intro prune_inv_cleared [OF inv])
  qed
  show ?thesis
    unfolding same using a b by (intro prune_invI)
next
  case False
  let ?rem = "prune_step md rem h"
  have hn: "h < length rem" using h(1) C by auto
  have nth: "?rem ! i = (i \<noteq> h \<and> (\<bar>int h - int i\<bar> \<le> md \<or> rem ! i))" if "i < length rem" for i
    using that False by (rule nth_prune_step_active)
  have old_a: "\<exists>p\<in>C - set (h # hs). \<not> rem ! p \<and> \<bar>int p - int q\<bar> \<le> md \<and> y ! q \<le> y ! p"
    if "q \<in> C" "rem ! q" for q
    using that by (intro prune_inv_witness [OF inv])
  have old_b: "rem ! q"
    if "p \<in> C - set (h # hs)" "\<not> rem ! p" "q < length rem" "q \<noteq> p" "\<bar>int p - int q\<bar> \<le> md" for p q
    using that by (intro prune_inv_cleared [OF inv])
  have far: "\<not> \<bar>int p - int h\<bar> \<le> md" if "p \<in> C - set (h # hs)" "\<not> rem ! p" for p
  proof
    assume "\<bar>int p - int h\<bar> \<le> md"
    moreover have "h \<noteq> p" using that(1) by auto
    ultimately have "rem ! h"
      using old_b [OF that hn] by simp
    with False show False by simp
  qed
  have a: "\<exists>p\<in>C - set hs. \<not> ?rem ! p \<and> \<bar>int p - int q\<bar> \<le> md \<and> y ! q \<le> y ! p"
    if q: "q \<in> C" "?rem ! q" for q
  proof -
    have qn: "q < length rem" using q(1) C by auto
    from q(2) have qh: "q \<noteq> h" and or: "\<bar>int h - int q\<bar> \<le> md \<or> rem ! q"
      using nth [OF qn] by simp_all
    show ?thesis
    proof (cases "rem ! q")
      case True
      from old_a [OF q(1) True] obtain p where
        p: "p \<in> C - set (h # hs)" "\<not> rem ! p" "\<bar>int p - int q\<bar> \<le> md" "y ! q \<le> y ! p"
        by blast
      have pn: "p < length rem" using p(1) C by auto
      have "\<not> \<bar>int h - int p\<bar> \<le> md"
        using far [OF p(1) p(2)] by (simp add: abs_minus_commute)
      then have "\<not> ?rem ! p"
        using nth [OF pn] p(2) by simp
      moreover have "p \<in> C - set hs" using p(1) by simp
      ultimately show ?thesis using p(3,4) by blast
    next
      case nrem: False
      with or have near: "\<bar>int h - int q\<bar> \<le> md" by simp
      have "q \<in> set hs"
      proof (rule ccontr)
        assume "q \<notin> set hs"
        then have "q \<in> C - set (h # hs)" using q(1) qh by simp
        from far [OF this nrem] near show False
          by (simp add: abs_minus_commute)
      qed
      then have "y ! q \<le> y ! h" using lower by blast
      moreover have "\<not> ?rem ! h" using nth [OF hn] by simp
      moreover have "h \<in> C - set hs" using h by simp
      ultimately show ?thesis using near by blast
    qed
  qed
  have b: "?rem ! q"
    if "p \<in> C - set hs" "\<not> ?rem ! p" "q < length rem" "q \<noteq> p" "\<bar>int p - int q\<bar> \<le> md" for p q
  proof (cases "p = h")
    case True
    then show ?thesis using nth [OF that(3)] that(4,5) by simp
  next
    case False
    have pn: "p < length rem" using that(1) C by auto
    from that(2) nth [OF pn] False have np: "\<not> \<bar>int h - int p\<bar> \<le> md" "\<not> rem ! p"
      by simp_all
    have pin: "p \<in> C - set (h # hs)" using that(1) False by simp
    have "rem ! q" using old_b [OF pin np(2) that(3,4,5)] .
    moreover have "q \<noteq> h" using np(1) that(5) by (auto simp: abs_minus_commute)
    ultimately show ?thesis using nth [OF that(3)] by simp
  qed
  show ?thesis
  proof (rule prune_invI)
    fix q assume "q \<in> C" "?rem ! q"
    then show "\<exists>p\<in>C - set hs. \<not> ?rem ! p \<and> \<bar>int p - int q\<bar> \<le> md \<and> y ! q \<le> y ! p"
      by (rule a)
  next
    fix p q assume "p \<in> C - set hs" "\<not> ?rem ! p" "q < length ?rem" "q \<noteq> p" "\<bar>int p - int q\<bar> \<le> md"
    then show "?rem ! q"
      using b [of p q] by simp
  qed
qed

lemma prune_loop_inv:
  assumes "distinct hs" and "set hs \<subseteq> C" and "C \<subseteq> {..<length rem}"
    and "sorted (rev (map (\<lambda>i. y ! i) hs))" and "prune_inv y md C rem hs"
  shows "prune_inv y md C (prune_loop hs md rem) []"
  using assms
proof (induction hs arbitrary: rem)
  case Nil
  then show ?case by simp
next
  case (Cons h hs)
  have lower: "\<forall>q\<in>set hs. y ! q \<le> y ! h" and srt: "sorted (rev (map (\<lambda>i. y ! i) hs))"
    using Cons.prems(4) by (auto simp: sorted_append)
  have "prune_inv y md C (prune_step md rem h) hs"
    using Cons.prems lower by (intro prune_inv_step) auto
  then have "prune_inv y md C (prune_loop hs md (prune_step md rem h)) []"
    using Cons.prems srt by (intro Cons.IH) auto
  then show ?case
    unfolding prune_loop_step .
qed

lemma highest_props:
  fixes y :: "real list" and peaks :: "nat list"
  assumes "distinct peaks"
  defines "highest \<equiv> rev (map (\<lambda>j. peaks ! j) (np_argsort (map (\<lambda>p. y ! p) peaks)))"
  shows "set highest = set peaks" and "distinct highest"
    and "sorted (rev (map (\<lambda>i. y ! i) highest))"
proof -
  let ?vals = "map (\<lambda>p. y ! p) peaks"
  let ?idx = "np_argsort ?vals"
  have set_idx: "set ?idx = {0..<length peaks}"
    by (simp add: np_argsort_def)
  have dist_idx: "distinct ?idx"
    by (simp add: np_argsort_def)
  have "set highest = (\<lambda>j. peaks ! j) ` {0..<length peaks}"
    by (simp add: highest_def set_idx)
  also have "\<dots> = set peaks"
    by (simp add: set_conv_nth) (auto simp: image_def)
  finally show "set highest = set peaks" .
  have "inj_on (\<lambda>j. peaks ! j) (set ?idx)"
    unfolding set_idx using assms(1) by (auto simp: inj_on_def nth_eq_iff_index_eq)
  then show "distinct highest"
    by (simp add: highest_def distinct_map dist_idx)
  have "rev (map (\<lambda>i. y ! i) highest) = map (\<lambda>j. y ! (peaks ! j)) ?idx"
    by (simp add: highest_def rev_map comp_def)
  also have "\<dots> = map (\<lambda>j. ?vals ! j) ?idx"
    by (rule map_cong) (use set_idx in auto)
  finally have "rev (map (\<lambda>i. y ! i) highest) = map (\<lambda>j. ?vals ! j) ?idx" .
  moreover have "sorted (map (\<lambda>j. ?vals ! j) ?idx)"
    unfolding np_argsort_def by (rule sorted_sort_key)
  ultimately show "sorted (rev (map (\<lambda>i. y ! i) highest))"
    by simp
qed

lemma prune_result:
  fixes y :: "real list" and peaks :: "nat list" and md :: int
  assumes "distinct peaks" and "set peaks \<subseteq> {..<length y}"
  defines "highest \<equiv> rev (map (\<lambda>j. peaks ! j) (np_argsort (map (\<lambda>p. y ! p) peaks)))"
  defines "rem \<equiv> prune_loop highest md (assign_at (replicate (length y) True) peaks False)"
  defines "kept \<equiv> filter (\<lambda>i. \<not> rem ! i) [0..<length y]"
  shows "set kept \<subseteq> set peaks"
    and "\<And>p q. p \<in> set kept \<Longrightarrow> q \<in> set kept \<Longrightarrow> p \<noteq> q \<Longrightarrow> md < \<bar>int p - int q\<bar>"
    and "\<And>q. q \<in> set peaks \<Longrightarrow> q \<notin> set kept \<Longrightarrow>
             \<exists>p\<in>set kept. \<bar>int p - int q\<bar> \<le> md \<and> y ! q \<le> y ! p"
proof -
  let ?rem0 = "assign_at (replicate (length y) True) peaks False"
  have len0: "length ?rem0 = length y" by simp
  have rem0: "?rem0 ! i = (i \<notin> set peaks)" if "i < length y" for i
    using that by (simp add: nth_assign_at)
  have len: "length rem = length y"
    by (simp add: rem_def)
  note hp = highest_props [OF assms(1), of y, folded highest_def]
  have inv0: "prune_inv y md (set peaks) ?rem0 highest"
  proof (rule prune_invI)
    fix q assume "q \<in> set peaks" "?rem0 ! q"
    then show "\<exists>p\<in>set peaks - set highest. \<not> ?rem0 ! p \<and> \<bar>int p - int q\<bar> \<le> md \<and> y ! q \<le> y ! p"
      using rem0 [of q] assms(2) by auto
  next
    fix p q assume "p \<in> set peaks - set highest"
    then show "?rem0 ! q" using hp(1) by simp
  qed
  have inv: "prune_inv y md (set peaks) rem []"
    unfolding rem_def
    by (rule prune_loop_inv) (use hp assms(2) inv0 in simp_all)
  have kept: "i \<in> set kept \<longleftrightarrow> i < length y \<and> \<not> rem ! i" for i
    by (auto simp: kept_def)
  show sub: "set kept \<subseteq> set peaks"
  proof
    fix i assume "i \<in> set kept"
    then have i: "i < length y" "\<not> rem ! i" by (simp_all add: kept)
    show "i \<in> set peaks"
    proof (rule ccontr)
      assume "i \<notin> set peaks"
      then have "?rem0 ! i" using rem0 [OF i(1)] by simp
      then have "rem ! i"
        unfolding rem_def using i(1) by (intro prune_loop_mono) simp_all
      with i(2) show False by simp
    qed
  qed
  show "md < \<bar>int p - int q\<bar>" if "p \<in> set kept" "q \<in> set kept" "p \<noteq> q" for p q
  proof (rule ccontr)
    assume "\<not> md < \<bar>int p - int q\<bar>"
    then have near: "\<bar>int p - int q\<bar> \<le> md" by simp
    have p: "p \<in> set peaks - set []" "\<not> rem ! p"
      using that(1) sub by (auto simp: kept)
    have q: "q < length rem" "\<not> rem ! q"
      using that(2) len by (auto simp: kept)
    have "rem ! q"
      using prune_inv_cleared [OF inv p q(1) _ near] that(3) by simp
    with q(2) show False by simp
  qed
  show "\<exists>p\<in>set kept. \<bar>int p - int q\<bar> \<le> md \<and> y ! q \<le> y ! p"
    if "q \<in> set peaks" "q \<notin> set kept" for q
  proof -
    have "q < length y" using that(1) assms(2) by auto
    then have "rem ! q" using that(2) by (simp add: kept)
    from prune_inv_witness [OF inv that(1) this] obtain p where
      p: "p \<in> set peaks" "\<not> rem ! p" "\<bar>int p - int q\<bar> \<le> md" "y ! q \<le> y ! p"
      by auto
    then have "p \<in> set kept" using assms(2) by (auto simp: kept)
    with p show ?thesis by blast
  qed
qed

lemma peak_indexes_props:
  assumes "peak_indexes False y thres min_dist thres_abs = Inr peaks"
  shows "\<exists>cands. peak_candidates y thres thres_abs = Inr cands
           \<and> sorted_wrt (<) peaks
           \<and> set peaks \<subseteq> set cands
           \<and> (\<forall>p\<in>set peaks. \<forall>q\<in>set peaks. p \<noteq> q \<longrightarrow> min_dist < \<bar>int p - int q\<bar>)
           \<and> (\<forall>q\<in>set cands. q \<notin> set peaks \<longrightarrow>
                 (\<exists>p\<in>set peaks. \<bar>int p - int q\<bar> \<le> min_dist \<and> y ! q \<le> y ! p))"
proof -
  from assms obtain cands where c: "peak_candidates y thres thres_abs = Inr cands"
    by (auto simp: peak_indexes_def split: sum.splits)
  note cp = peak_candidates_props [OF c]
  have dist: "distinct cands"
    using cp(1) by (simp add: strict_sorted_iff)
  show ?thesis
  proof (cases "length cands > 1 \<and> min_dist > 1")
    case True
    let ?highest = "rev (map (\<lambda>j. cands ! j) (np_argsort (map (\<lambda>p. y ! p) cands)))"
    let ?rem = "prune_loop ?highest min_dist (assign_at (replicate (length y) True) cands False)"
    have pk: "peaks = filter (\<lambda>i. \<not> ?rem ! i) [0..<length y]"
      using assms c True by (simp add: peak_indexes_def Let_def)
    note pr = prune_result [OF dist cp(2), where md = min_dist, folded pk]
    have "sorted_wrt (<) peaks"
      unfolding pk by (simp add: sorted_wrt_filter)
    then show ?thesis
      using c pr by blast
  next
    case False
    then have pk: "peaks = cands"
      using assms c by (auto simp: peak_indexes_def)
    have "min_dist < \<bar>int p - int q\<bar>" if "p \<in> set cands" "q \<in> set cands" "p \<noteq> q" for p q
    proof (cases "length cands > 1")
      case True
      with False have md: "min_dist \<le> 1" by simp
      have "Suc p \<noteq> q" "Suc q \<noteq> p"
        using cp(3) that by auto
      with that(3) have "1 < \<bar>int p - int q\<bar>" by linarith
      with md show ?thesis by simp
    next
      case single: False
      then have "length cands \<le> 1" by simp
      then have "p = q"
        using that(1,2) by (cases cands) auto
      with that(3) show ?thesis by simp
    qed
    then show ?thesis
      using c cp(1) unfolding pk by blast
  qed
qed

lemma py_get_ok:
  "- int (length xs) \<le> i \<Longrightarrow> i < int (length xs) \<Longrightarrow> \<exists>v. py_get xs i = Inr v"
  by (auto simp: py_get_def)

lemma concat_np_split_from: "concat (np_split_from off xs cuts) = xs"
  by (induction cuts arbitrary: off xs) simp_all

lemma np_split_from_nonempty:
  "xs \<noteq> [] \<Longrightarrow> sorted_wrt (<) cuts \<Longrightarrow> \<forall>c\<in>set cuts. off < c \<and> c < off + length xs
     \<Longrightarrow> [] \<notin> set (np_split_from off xs cuts)"
proof (induction cuts arbitrary: off xs)
  case Nil
  then show ?case by simp
next
  case (Cons c cuts)
  have c: "off < c" "c < off + length xs" using Cons.prems(3) by simp_all
  then have "take (c - off) xs \<noteq> []" using Cons.prems(1) by simp
  moreover have "[] \<notin> set (np_split_from c (drop (c - off) xs) cuts)"
  proof (rule Cons.IH)
    show "drop (c - off) xs \<noteq> []" using c by simp
    show "sorted_wrt (<) cuts" using Cons.prems(2) by simp
    show "\<forall>d\<in>set cuts. c < d \<and> d < c + length (drop (c - off) xs)"
      using Cons.prems(2,3) c by auto
  qed
  ultimately show ?case by auto
qed

lemma length_np_split_from: "length (np_split_from off xs cuts) = length cuts + 1"
  by (induction cuts arbitrary: off xs) simp_all

lemma consecutive_last:
  "zs \<noteq> [] \<Longrightarrow> \<forall>d\<in>set (np_diff (map int zs)). d = 1 \<Longrightarrow> last zs = hd zs + (length zs - 1)"
proof (induction zs rule: induct_list012)
  case 1
  then show ?case by simp
next
  case (2 a)
  then show ?case by simp
next
  case (3 a b zs)
  then have "b = Suc a" by simp
  moreover have "last (b # zs) = hd (b # zs) + (length (b # zs) - 1)"
    using 3 by simp
  ultimately show ?case by simp
qed

lemma before_last_piece:
  fixes zp :: "nat list list"
  assumes "sorted_wrt (<) (concat zp)" and "[] \<notin> set zp" and "p \<in> set (butlast zp)"
    and "\<forall>i\<in>set (concat zp). i < n"
  shows "last p + 1 < n"
proof -
  from assms(3) have ne: "zp \<noteq> []" by auto
  from assms(3) obtain as bs where bl: "butlast zp = as @ p # bs"
    by (auto simp: in_set_conv_decomp)
  have zp: "zp = as @ p # bs @ [last zp]"
    using ne bl by (metis append_butlast_last_id append.assoc append_Cons)
  have "p \<in> set zp" using assms(3) by (rule in_set_butlastD)
  then have pne: "p \<noteq> []" using assms(2) by auto
  have "last zp \<in> set zp" using ne by simp
  then have lne: "last zp \<noteq> []" using assms(2) by auto
  have "last p \<in> set p" "hd (last zp) \<in> set (last zp)"
    using pne lne by simp_all
  moreover have "\<forall>u\<in>set p. \<forall>v\<in>set (last zp). u < v"
    using assms(1) by (subst (asm) zp) (auto simp: sorted_wrt_append)
  ultimately have "last p < hd (last zp)" by blast
  moreover have "hd (last zp) < n"
    using assms(4) lne ne by (subst (asm) zp) auto
  ultimately show ?thesis by simp
qed

lemma fill_interior_ok:
  assumes "\<forall>p\<in>set zp. p \<noteq> [] \<and> last p + 1 < length dy \<and> hd p < length dy"
  shows "\<exists>dy'. fill_interior dy zp = Inr dy'"
  using assms
proof (induction zp arbitrary: dy)
  case Nil
  then show ?case by simp
next
  case (Cons p zp)
  from Cons.prems obtain z zs where p: "p = z # zs" and z: "z < length dy"
    and l: "last p + 1 < length dy"
    by (cases p) auto
  from z obtain v where v: "py_get dy (int z - 1) = Inr v"
    using py_get_ok [of dy "int z - 1"] by auto
  let ?dy1 = "assign_at dy (filter (\<lambda>i. real i < np_median p) p) v"
  from l obtain r where r: "py_get ?dy1 (int (last p) + 1) = Inr r"
    using py_get_ok [of ?dy1 "int (last p) + 1"] by auto
  let ?dy2 = "assign_at ?dy1 (filter (\<lambda>i. real i \<ge> np_median p) p) r"
  have "\<exists>dy'. fill_interior ?dy2 zp = Inr dy'"
    by (rule Cons.IH) (use Cons.prems in simp)
  then show ?case
    using v r unfolding p [symmetric] by (simp add: Let_def p split: list.splits)
qed

lemma fix_leftmost_ok:
  assumes "zp = first # rest" and "first \<noteq> []"
    and "hd first = 0 \<longrightarrow> last first + 1 < length dy"
  shows "\<exists>dy1 zp1. fix_leftmost dy zp = Inr (dy1, zp1) \<and> length dy1 = length dy
           \<and> (zp1 = zp \<or> zp1 = rest)"
proof -
  from assms(2) obtain z zs where f: "first = z # zs" by (cases first) auto
  show ?thesis
  proof (cases "z = 0")
    case True
    then have "last first + 1 < length dy" using assms(3) f by simp
    then obtain v where "py_get dy (int (last first) + 1) = Inr v"
      using py_get_ok [of dy "int (last first) + 1"] by auto
    then show ?thesis
      using True by (simp add: fix_leftmost_def assms(1) f)
  next
    case False
    then show ?thesis
      by (simp add: fix_leftmost_def assms(1) f)
  qed
qed

lemma fix_rightmost_ok:
  assumes "[] \<notin> set zp" and "\<forall>p\<in>set zp. \<forall>i\<in>set p. i < length dy"
    and "\<forall>p\<in>set (butlast zp). last p + 1 < length dy"
  shows "\<exists>dy2 zp2. fix_rightmost dy zp = Inr (dy2, zp2) \<and> length dy2 = length dy
           \<and> (\<forall>p\<in>set zp2. p \<noteq> [] \<and> last p + 1 < length dy \<and> hd p < length dy)"
proof (cases "zp = []")
  case True
  then show ?thesis by (simp add: fix_rightmost_def)
next
  case False
  then have lin: "last zp \<in> set zp" by simp
  then have "last zp \<noteq> []" using assms(1) by metis
  then obtain z zs where l: "last zp = z # zs"
    by (auto simp: neq_Nil_conv)
  have bound: "p \<noteq> [] \<and> hd p < length dy" if "p \<in> set zp" for p
  proof -
    have ne: "p \<noteq> []" using that assms(1) by metis
    then have "hd p \<in> set p" by simp
    then have "hd p < length dy" using assms(2) that by blast
    with ne show ?thesis by simp
  qed
  have bl: "p \<noteq> [] \<and> last p + 1 < length dy \<and> hd p < length dy" if "p \<in> set (butlast zp)" for p
    using that assms(3) bound [of p] by (auto dest: in_set_butlastD)
  show ?thesis
  proof (cases "int (last (z # zs)) = int (length dy) - 1")
    case True
    have "z < length dy" using assms(2) lin l by auto
    then obtain v where "py_get dy (int z - 1) = Inr v"
      using py_get_ok [of dy "int z - 1"] by auto
    then show ?thesis
      using True False l bl by (auto simp: fix_rightmost_def)
  next
    case ne: False
    have "last (z # zs) < length dy"
      using assms(2) lin l by (metis last_in_set list.distinct(1))
    with ne have last_ok: "last (last zp) + 1 < length dy"
      unfolding l by linarith
    have "p \<noteq> [] \<and> last p + 1 < length dy \<and> hd p < length dy" if "p \<in> set zp" for p
    proof (cases "p = last zp")
      case True
      then show ?thesis using last_ok bound [OF that] by simp
    next
      case False
      then have "p \<in> set (butlast zp)"
        using that \<open>zp \<noteq> []\<close> by (metis append_butlast_last_id in_set_conv_decomp
            rotate1.simps(2) set_ConsD set_rotate1)
      then show ?thesis by (rule bl)
    qed
    then show ?thesis
      using ne False l by (auto simp: fix_rightmost_def)
  qed
qed

lemma np_where_sorted: "sorted_wrt (<) (np_where P xs)"
  by (simp add: np_where_def sorted_wrt_filter)

lemma np_where_bound: "i \<in> set (np_where P xs) \<Longrightarrow> i < length xs"
  by (simp add: np_where_def)

lemma np_where_empty: "np_where P xs = [] \<Longrightarrow> \<forall>x\<in>set xs. \<not> P x"
  by (auto simp: np_where_def filter_empty_conv in_set_conv_nth)

lemma fill_plateaus_ok:
  fixes dy :: "real list"
  assumes "np_where (\<lambda>d. d = 0) dy \<noteq> []"
    and "length (np_where (\<lambda>d. d = 0) dy) \<noteq> length dy"
  shows "\<exists>dy'. fill_plateaus dy (np_where (\<lambda>d. d = 0) dy) = Inr dy'"
proof -
  define zeros where "zeros = np_where (\<lambda>d. d = 0) dy"
  define ds where "ds = np_diff (map int zeros)"
  define cuts where "cuts = map (\<lambda>i. i + 1) (np_where (\<lambda>d. d \<noteq> 1) ds)"
  define zp where "zp = np_split zeros cuts"
  have zne: "zeros \<noteq> []" and zlen: "length zeros \<noteq> length dy"
    using assms by (simp_all add: zeros_def)
  have zsorted: "sorted_wrt (<) zeros"
    unfolding zeros_def by (rule np_where_sorted)
  have zbound: "\<forall>i\<in>set zeros. i < length dy"
    unfolding zeros_def using np_where_bound by blast
  have len_ds: "length ds = length zeros - 1"
    by (simp add: ds_def length_np_diff)
  have csorted: "sorted_wrt (<) cuts"
    using np_where_sorted [of "\<lambda>d. d \<noteq> 1" ds] by (simp add: cuts_def sorted_wrt_map)
  have cbound: "\<forall>c\<in>set cuts. 0 < c \<and> c < 0 + length zeros"
  proof
    fix c assume "c \<in> set cuts"
    then obtain i where c: "c = i + 1" and "i \<in> set (np_where (\<lambda>d. d \<noteq> 1) ds)"
      by (auto simp: cuts_def)
    then have "i < length zeros - 1"
      using np_where_bound [of i "\<lambda>d. d \<noteq> 1" ds] len_ds by simp
    then show "0 < c \<and> c < 0 + length zeros"
      unfolding c by simp
  qed
  have concat: "concat zp = zeros"
    by (simp add: zp_def np_split_def concat_np_split_from)
  have nonempty: "[] \<notin> set zp"
    unfolding zp_def np_split_def using zne csorted cbound by (rule np_split_from_nonempty)
  have len_zp: "length zp = length cuts + 1"
    by (simp add: zp_def np_split_def length_np_split_from)
  then obtain first rest where zp: "zp = first # rest"
    by (cases zp) auto
  have fne: "first \<noteq> []" using nonempty zp by auto
  have elems: "\<forall>p\<in>set zp. \<forall>i\<in>set p. i < length dy"
    using zbound concat by auto
  have butlast_ok: "\<forall>p\<in>set (butlast zp). last p + 1 < length dy"
  proof
    fix p assume "p \<in> set (butlast zp)"
    then show "last p + 1 < length dy"
      using zsorted zbound nonempty by (intro before_last_piece [of zp]) (simp_all add: concat)
  qed
  have left: "hd first = 0 \<longrightarrow> last first + 1 < length dy"
  proof
    assume h0: "hd first = 0"
    show "last first + 1 < length dy"
    proof (cases "rest = []")
      case True
      then have fz: "first = zeros" using concat zp by simp
      from True zp len_zp have "cuts = []" by simp
      then have "np_where (\<lambda>d. d \<noteq> 1) ds = []" by (simp add: cuts_def)
      then have "\<forall>d\<in>set ds. d = 1"
        using np_where_empty [of "\<lambda>d. d \<noteq> 1" ds] by simp
      then have "last zeros = hd zeros + (length zeros - 1)"
        unfolding ds_def using zne by (intro consecutive_last)
      then have l: "last zeros + 1 = length zeros"
        using h0 fz zne by (cases zeros) auto
      have "last zeros < length dy" using zbound zne by simp
      with l zlen show ?thesis unfolding fz by linarith
    next
      case False
      then have "first \<in> set (butlast zp)" by (simp add: zp)
      with butlast_ok show ?thesis by blast
    qed
  qed
  from fix_leftmost_ok [OF zp fne left] obtain dy1 zp1 where
    l: "fix_leftmost dy zp = Inr (dy1, zp1)" and len1: "length dy1 = length dy"
    and zp1: "zp1 = zp \<or> zp1 = rest"
    by blast
  have sub: "set zp1 \<subseteq> set zp" "set (butlast zp1) \<subseteq> set (butlast zp)"
    using zp1 zp by (auto dest: in_set_butlastD)
  have "\<exists>dy2 zp2. fix_rightmost dy1 zp1 = Inr (dy2, zp2) \<and> length dy2 = length dy1
           \<and> (\<forall>p\<in>set zp2. p \<noteq> [] \<and> last p + 1 < length dy1 \<and> hd p < length dy1)"
    using sub nonempty elems butlast_ok unfolding len1 [symmetric]
    by (intro fix_rightmost_ok) auto
  then obtain dy2 zp2 where
    r: "fix_rightmost dy1 zp1 = Inr (dy2, zp2)" and len2: "length dy2 = length dy1"
    and ok: "\<forall>p\<in>set zp2. p \<noteq> [] \<and> last p + 1 < length dy2 \<and> hd p < length dy2"
    by auto
  from fill_interior_ok [OF ok] obtain dy' where "fill_interior dy2 zp2 = Inr dy'"
    by blast
  moreover have "fill_plateaus dy zeros =
      (case fix_leftmost dy zp of
          Inl e \<Rightarrow> Inl e
        | Inr (dy, zero_plateaus) \<Rightarrow>
            (case fix_rightmost dy zero_plateaus of
               Inl e \<Rightarrow> Inl e
             | Inr (dy, zero_plateaus) \<Rightarrow> fill_interior dy zero_plateaus))"
    unfolding fill_plateaus_def Let_def zp_def cuts_def ds_def by (rule refl)
  ultimately have "fill_plateaus dy zeros = Inr dy'"
    by (simp add: l r)
  then show ?thesis
    unfolding zeros_def by blast
qed

lemma peak_candidates_ok:
  assumes "y \<noteq> [] \<or> thres_abs"
  shows "\<exists>peaks. peak_candidates y thres thres_abs = Inr peaks"
proof -
  let ?dy = "np_diff y"
  let ?zeros = "np_where (\<lambda>d. d = 0) ?dy"
  have t: "\<exists>t. (if \<not> thres_abs
            then (case np_max y of
                    Inl e \<Rightarrow> Inl e
                  | Inr mx \<Rightarrow> (case np_min y of
                                 Inl e \<Rightarrow> Inl e
                               | Inr mn \<Rightarrow> Inr (thres * (mx - mn) + mn)))
            else Inr thres) = Inr t"
  proof (cases thres_abs)
    case True
    then show ?thesis by simp
  next
    case False
    then have "y \<noteq> []" using assms by simp
    then show ?thesis using False by (simp add: np_max_def np_min_def)
  qed
  then obtain t0 where t0: "(if \<not> thres_abs
            then (case np_max y of
                    Inl e \<Rightarrow> Inl e
                  | Inr mx \<Rightarrow> (case np_min y of
                                 Inl e \<Rightarrow> Inl e
                               | Inr mn \<Rightarrow> Inr (thres * (mx - mn) + mn)))
            else Inr thres) = Inr t0"
    ..
  show ?thesis
  proof (cases "int (length ?zeros) = int (length y) - 1")
    case True
    have "peak_candidates y thres thres_abs = Inr []"
      unfolding peak_candidates_def t0 Let_def using True by simp
    then show ?thesis ..
  next
    case flat: False
    have "\<exists>dy. (if length ?zeros \<noteq> 0 then fill_plateaus ?dy ?zeros else Inr ?dy) = Inr dy"
    proof (cases "?zeros = []")
      case True
      then show ?thesis by simp
    next
      case False
      then have "?dy \<noteq> []" by (auto simp: np_where_def)
      then have "y \<noteq> []" by auto
      then have "0 < length y" by simp
      with flat have "length ?zeros \<noteq> length y - 1" by linarith
      then have "length ?zeros \<noteq> length ?dy"
        by (simp add: length_np_diff)
      from fill_plateaus_ok [OF False this] show ?thesis
        using False by simp
    qed
    then obtain dy where
      dy: "(if length ?zeros \<noteq> 0 then fill_plateaus ?dy ?zeros else Inr ?dy) = Inr dy"
      ..
    have "peak_candidates y thres thres_abs
        = Inr (filter (\<lambda>i. (dy @ [0]) ! i < 0 \<and> (0 # dy) ! i > 0 \<and> y ! i > t0) [0..<length y])"
      unfolding peak_candidates_def t0 Let_def dy using flat by simp
    then show ?thesis ..
  qed
qed

lemma peak_indexes_ok:
  assumes "y \<noteq> [] \<or> thres_abs"
  shows "\<exists>peaks. peak_indexes False y thres min_dist thres_abs = Inr peaks"
proof -
  from peak_candidates_ok [OF assms, of thres] obtain c where
    "peak_candidates y thres thres_abs = Inr c" ..
  then show ?thesis
    by (simp add: peak_indexes_def Let_def)
qed

text \<open>
  C5. \<open>peak_indexes\<close> returns for every non-empty signed \<open>y\<close> (and for an empty one
  when the threshold is absolute). The indices it returns are strictly increasing and are
  candidates (local maxima above the threshold), any two of them are more than
  \<open>min_dist\<close> apart, and every candidate left out lies within \<open>min_dist\<close> of a returned
  peak at least as high: in a cluster the tallest wins. Two spikes of heights 10 and 8 at
  indices 10 and 12 of a flat-zero array of 20 samples, with \<open>thres = 0.3\<close> and
  \<open>min_dist = 5\<close>, give exactly \<open>[10]\<close>.
\<close>

theorem peak_indexes_min_dist_pruning:
  "(y \<noteq> [] \<or> thres_abs \<longrightarrow> (\<exists>peaks. peak_indexes False y thres min_dist thres_abs = Inr peaks))
   \<and> (peak_indexes False y thres min_dist thres_abs = Inr peaks \<longrightarrow>
      (\<exists>cands. peak_candidates y thres thres_abs = Inr cands
         \<and> sorted_wrt (<) peaks
         \<and> set peaks \<subseteq> set cands
         \<and> (\<forall>p\<in>set peaks. \<forall>q\<in>set peaks. p \<noteq> q \<longrightarrow> min_dist < \<bar>int p - int q\<bar>)
         \<and> (\<forall>q\<in>set cands. q \<notin> set peaks \<longrightarrow>
               (\<exists>p\<in>set peaks. \<bar>int p - int q\<bar> \<le> min_dist \<and> y ! q \<le> y ! p))))
   \<and> peak_indexes False (replicate 10 0 @ [10, 0, 8] @ replicate 7 0) (3 / 10) 5 False = Inr [10]"
proof (intro conjI impI)
  assume "y \<noteq> [] \<or> thres_abs"
  then show "\<exists>peaks. peak_indexes False y thres min_dist thres_abs = Inr peaks"
    by (rule peak_indexes_ok)
next
  assume "peak_indexes False y thres min_dist thres_abs = Inr peaks"
  then show "\<exists>cands. peak_candidates y thres thres_abs = Inr cands
         \<and> sorted_wrt (<) peaks
         \<and> set peaks \<subseteq> set cands
         \<and> (\<forall>p\<in>set peaks. \<forall>q\<in>set peaks. p \<noteq> q \<longrightarrow> min_dist < \<bar>int p - int q\<bar>)
         \<and> (\<forall>q\<in>set cands. q \<notin> set peaks \<longrightarrow>
               (\<exists>p\<in>set peaks. \<bar>int p - int q\<bar> \<le> min_dist \<and> y ! q \<le> y ! p))"
    by (rule peak_indexes_props)
next
  show "peak_indexes False (replicate 10 0 @ [10, 0, 8] @ replicate 7 0) (3 / 10) 5 False = Inr [10]"
    by code_simp
qed

theorem peak_indexes_min_dist_pruning_witness:
  "replicate 10 0 @ [10, 0, 8 :: real] @ replicate 7 0 \<noteq> []
   \<and> peak_indexes False (replicate 10 0 @ [10, 0, 8] @ replicate 7 0) (3 / 10) 5 False = Inr [10]
   \<and> peak_candidates (replicate 10 0 @ [10, 0, 8] @ replicate 7 0) (3 / 10) False = Inr [10, 12]
   \<and> (\<exists>p\<in>set [10 :: nat]. \<bar>int p - int 12\<bar> \<le> 5
         \<and> (replicate 10 0 @ [10, 0, 8 :: real] @ replicate 7 0) ! 12
              \<le> (replicate 10 0 @ [10, 0, 8] @ replicate 7 0) ! p)"
proof -
  let ?y = "replicate 10 0 @ [10, 0, 8 :: real] @ replicate 7 0"
  have ne: "?y \<noteq> []" by simp
  have c: "peak_candidates ?y (3 / 10) False = Inr [10, 12]"
    by code_simp
  note t = peak_indexes_min_dist_pruning [of ?y False "3 / 10" 5 "[10]"]
  from t [THEN conjunct1] ne
  have ex: "\<exists>peaks. peak_indexes False ?y (3 / 10) 5 False = Inr peaks"
    by blast
  from t [THEN conjunct2, THEN conjunct2]
  have r: "peak_indexes False ?y (3 / 10) 5 False = Inr [10]" .
  from t [THEN conjunct2, THEN conjunct1] r
  have "\<exists>cands. peak_candidates ?y (3 / 10) False = Inr cands
         \<and> (\<forall>q\<in>set cands. q \<notin> set [10 :: nat] \<longrightarrow>
               (\<exists>p\<in>set [10 :: nat]. \<bar>int p - int q\<bar> \<le> 5 \<and> ?y ! q \<le> ?y ! p))"
    by blast
  then have "\<exists>p\<in>set [10 :: nat]. \<bar>int p - int 12\<bar> \<le> 5 \<and> ?y ! 12 \<le> ?y ! p"
    unfolding c by simp
  with ne r c show ?thesis by blast
qed

subsection \<open>Interpolation\<close>

lemma interp_point_out_of_range:
  "v < xp ! 0 \<or> last xp < v \<Longrightarrow> interp_point xp fp fv fv v = fv"
  by (auto simp: interp_point_def)

lemma extrap_fill_out_of_range:
  assumes "interp = Inr f" and "x \<noteq> []"
  shows "\<exists>ynew. extrap_fill interp x xnew (Some fv) = Inr ynew \<and> length ynew = length xnew
           \<and> (\<forall>i<length xnew. ynew ! i = (if xnew ! i < x ! 0 \<or> last x < xnew ! i then fv
                                           else f False (xnew ! i)))"
proof -
  from assms(2) obtain x0 xs where x: "x = x0 # xs" by (cases x) auto
  show ?thesis
    unfolding extrap_fill_def assms(1) x
    by (auto simp: Let_def)
qed

lemma extrap_fill_no_fill:
  "interp = Inr f \<Longrightarrow> extrap_fill interp x xnew None = Inr (map (f True) xnew)"
  by (simp add: extrap_fill_def)

lemma extrap_fill_values:
  assumes "interp = Inr f" and "x \<noteq> []"
  shows "extrap_fill interp x xnew (Some fv)
           = Inr (map (\<lambda>v. if v < x ! 0 \<or> last x < v then fv else f False v) xnew)"
proof -
  from extrap_fill_out_of_range [OF assms, of xnew fv] obtain ynew where
    y: "extrap_fill interp x xnew (Some fv) = Inr ynew" and len: "length ynew = length xnew"
    and nth: "\<forall>i<length xnew. ynew ! i = (if xnew ! i < x ! 0 \<or> last x < xnew ! i then fv
                                           else f False (xnew ! i))"
    by blast
  have "ynew = map (\<lambda>v. if v < x ! 0 \<or> last x < v then fv else f False v) xnew"
    using len nth by (intro nth_equalityI) simp_all
  with y show ?thesis by simp
qed

text \<open>
  C9. At a point of \<open>xnew\<close> below \<open>x[0]\<close> or above \<open>x[-1]\<close> and with a fill value,
  \<open>interpolate\<close> returns the fill value itself for the methods "linear" (for \<open>x\<close>, \<open>y\<close> of
  equal non-zero length), "cubic" and "pchip" (when SciPy builds the interpolator); the
  last two return the interpolant's value at every other point, and its extrapolation
  everywhere when there is no fill value. For "quadratic", "spline" and "barycentric" the
  fill value is ignored: the result is the fitted polynomial, spline or barycentric
  interpolant evaluated at every point of \<open>xnew\<close>, out of range as well. Any other method
  name raises \<open>ValueError\<close>.
\<close>

theorem interpolate_fill_value:
  "(x \<noteq> [] \<and> length y = length x \<and> i < length xnew \<and> (xnew ! i < x ! 0 \<or> last x < xnew ! i) \<longrightarrow>
      (\<exists>ynew. interpolate lib x y xnew ''linear'' (Some fv) = Inr ynew
          \<and> length ynew = length xnew \<and> ynew ! i = fv))
   \<and> (x \<noteq> [] \<and> akima lib x y = Inr f \<and> i < length xnew \<and> (xnew ! i < x ! 0 \<or> last x < xnew ! i) \<longrightarrow>
      (\<exists>ynew. interpolate lib x y xnew ''cubic'' (Some fv) = Inr ynew
          \<and> length ynew = length xnew \<and> ynew ! i = fv))
   \<and> (x \<noteq> [] \<and> pchip lib x y = Inr f \<and> i < length xnew \<and> (xnew ! i < x ! 0 \<or> last x < xnew ! i) \<longrightarrow>
      (\<exists>ynew. interpolate lib x y xnew ''pchip'' (Some fv) = Inr ynew
          \<and> length ynew = length xnew \<and> ynew ! i = fv))
   \<and> (m \<in> {''quadratic'', ''spline'', ''barycentric''} \<longrightarrow>
        interpolate lib x y xnew m fill_value = interpolate lib x y xnew m None)
   \<and> (polyfit lib x y 2 = Inr coeffs \<and> i < length xnew \<longrightarrow>
      (\<exists>ynew. interpolate lib x y xnew ''quadratic'' fill_value = Inr ynew
          \<and> ynew ! i = np_polyval coeffs (xnew ! i)))
   \<and> (polyfit lib x y 2 = Inr coeffs \<longrightarrow>
        interpolate lib x y xnew ''quadratic'' fill_value = Inr (map (np_polyval coeffs) xnew))
   \<and> (splrep_splev lib x y = Inr g \<longrightarrow>
        interpolate lib x y xnew ''spline'' fill_value = Inr (map g xnew))
   \<and> (barycentric lib x y = Inr h \<longrightarrow>
        interpolate lib x y xnew ''barycentric'' fill_value = Inr (map h xnew))
   \<and> (x \<noteq> [] \<and> akima lib x y = Inr f \<longrightarrow>
        interpolate lib x y xnew ''cubic'' (Some fv)
          = Inr (map (\<lambda>v. if v < x ! 0 \<or> last x < v then fv else f False v) xnew)
      \<and> interpolate lib x y xnew ''cubic'' None = Inr (map (f True) xnew))
   \<and> (x \<noteq> [] \<and> pchip lib x y = Inr f \<longrightarrow>
        interpolate lib x y xnew ''pchip'' (Some fv)
          = Inr (map (\<lambda>v. if v < x ! 0 \<or> last x < v then fv else f False v) xnew)
      \<and> interpolate lib x y xnew ''pchip'' None = Inr (map (f True) xnew))
   \<and> (m \<notin> {''linear'', ''spline'', ''quadratic'', ''cubic'', ''barycentric'', ''pchip''} \<longrightarrow>
        interpolate lib x y xnew m fill_value = Inl (ValueError (''Invalid interpolation method '' @ m)))"
proof (intro conjI impI)
  assume a: "x \<noteq> [] \<and> length y = length x \<and> i < length xnew \<and> (xnew ! i < x ! 0 \<or> last x < xnew ! i)"
  then have "interpolate lib x y xnew ''linear'' (Some fv) = Inr (map (interp_point x y fv fv) xnew)"
    by (simp add: interpolate_def np_interp_def)
  moreover have "map (interp_point x y fv fv) xnew ! i = fv"
    using a by (simp add: interp_point_out_of_range)
  ultimately show "\<exists>ynew. interpolate lib x y xnew ''linear'' (Some fv) = Inr ynew
          \<and> length ynew = length xnew \<and> ynew ! i = fv"
    by simp
next
  assume a: "x \<noteq> [] \<and> akima lib x y = Inr f \<and> i < length xnew \<and> (xnew ! i < x ! 0 \<or> last x < xnew ! i)"
  then have x: "x \<noteq> []" and f: "akima lib x y = Inr f" by simp_all
  from extrap_fill_out_of_range [OF f x, of xnew fv] a
  show "\<exists>ynew. interpolate lib x y xnew ''cubic'' (Some fv) = Inr ynew
          \<and> length ynew = length xnew \<and> ynew ! i = fv"
    by (auto simp: interpolate_def)
next
  assume a: "x \<noteq> [] \<and> pchip lib x y = Inr f \<and> i < length xnew \<and> (xnew ! i < x ! 0 \<or> last x < xnew ! i)"
  then have x: "x \<noteq> []" and f: "pchip lib x y = Inr f" by simp_all
  from extrap_fill_out_of_range [OF f x, of xnew fv] a
  show "\<exists>ynew. interpolate lib x y xnew ''pchip'' (Some fv) = Inr ynew
          \<and> length ynew = length xnew \<and> ynew ! i = fv"
    by (auto simp: interpolate_def)
next
  assume "m \<in> {''quadratic'', ''spline'', ''barycentric''}"
  then show "interpolate lib x y xnew m fill_value = interpolate lib x y xnew m None"
    by (auto simp: interpolate_def)
next
  assume "polyfit lib x y 2 = Inr coeffs \<and> i < length xnew"
  then show "\<exists>ynew. interpolate lib x y xnew ''quadratic'' fill_value = Inr ynew
          \<and> ynew ! i = np_polyval coeffs (xnew ! i)"
    by (simp add: interpolate_def)
next
  assume "polyfit lib x y 2 = Inr coeffs"
  then show "interpolate lib x y xnew ''quadratic'' fill_value = Inr (map (np_polyval coeffs) xnew)"
    by (simp add: interpolate_def)
next
  assume "splrep_splev lib x y = Inr g"
  then show "interpolate lib x y xnew ''spline'' fill_value = Inr (map g xnew)"
    by (simp add: interpolate_def)
next
  assume "barycentric lib x y = Inr h"
  then show "interpolate lib x y xnew ''barycentric'' fill_value = Inr (map h xnew)"
    by (simp add: interpolate_def)
next
  assume a: "x \<noteq> [] \<and> akima lib x y = Inr f"
  then have x: "x \<noteq> []" and f: "akima lib x y = Inr f" by simp_all
  show "interpolate lib x y xnew ''cubic'' (Some fv)
          = Inr (map (\<lambda>v. if v < x ! 0 \<or> last x < v then fv else f False v) xnew)"
    using extrap_fill_values [OF f x, of xnew fv] by (simp add: interpolate_def)
  show "interpolate lib x y xnew ''cubic'' None = Inr (map (f True) xnew)"
    using extrap_fill_no_fill [OF f, of x xnew] by (simp add: interpolate_def)
next
  assume a: "x \<noteq> [] \<and> pchip lib x y = Inr f"
  then have x: "x \<noteq> []" and f: "pchip lib x y = Inr f" by simp_all
  show "interpolate lib x y xnew ''pchip'' (Some fv)
          = Inr (map (\<lambda>v. if v < x ! 0 \<or> last x < v then fv else f False v) xnew)"
    using extrap_fill_values [OF f x, of xnew fv] by (simp add: interpolate_def)
  show "interpolate lib x y xnew ''pchip'' None = Inr (map (f True) xnew)"
    using extrap_fill_no_fill [OF f, of x xnew] by (simp add: interpolate_def)
next
  assume "m \<notin> {''linear'', ''spline'', ''quadratic'', ''cubic'', ''barycentric'', ''pchip''}"
  then show "interpolate lib x y xnew m fill_value = Inl (ValueError (''Invalid interpolation method '' @ m))"
    by (simp add: interpolate_def)
qed

theorem interpolate_fill_value_witness:
  "(\<exists>ynew. interpolate line_lib [0, 1, 2] [1, 3, 5] [1, 5] ''linear'' (Some (- 1)) = Inr ynew
       \<and> length ynew = length [1, 5 :: real] \<and> ynew ! 1 = - 1)
   \<and> (\<exists>ynew. interpolate line_lib [0, 1, 2] [1, 3, 5] [1, 5] ''cubic'' (Some (- 1)) = Inr ynew
       \<and> length ynew = length [1, 5 :: real] \<and> ynew ! 1 = - 1)
   \<and> (\<exists>ynew. interpolate line_lib [0, 1, 2] [1, 3, 5] [1, 5] ''pchip'' (Some (- 1)) = Inr ynew
       \<and> length ynew = length [1, 5 :: real] \<and> ynew ! 1 = - 1)
   \<and> interpolate line_lib [0, 1, 2] [1, 3, 5] [1, 5] ''quadratic'' (Some (- 1))
       = interpolate line_lib [0, 1, 2] [1, 3, 5] [1, 5] ''quadratic'' None
   \<and> (\<exists>ynew. interpolate line_lib [0, 1, 2] [1, 3, 5] [1, 5] ''quadratic'' (Some (- 1)) = Inr ynew
       \<and> ynew ! 1 = 11)
   \<and> interpolate line_lib [0, 1, 2] [1, 3, 5] [1, 5] ''quadratic'' (Some (- 1)) = Inr [3, 11]
   \<and> interpolate line_lib [0, 1, 2] [1, 3, 5] [1, 5] ''spline'' (Some (- 1)) = Inr [3, 11]
   \<and> interpolate line_lib [0, 1, 2] [1, 3, 5] [1, 5] ''barycentric'' (Some (- 1)) = Inr [3, 11]
   \<and> interpolate line_lib [0, 1, 2] [1, 3, 5] [1, 5] ''cubic'' (Some (- 1)) = Inr [3, - 1]
   \<and> interpolate line_lib [0, 1, 2] [1, 3, 5] [1, 5] ''cubic'' None = Inr [3, 11]
   \<and> interpolate line_lib [0, 1, 2] [1, 3, 5] [1, 5] ''pchip'' (Some (- 1)) = Inr [3, - 1]
   \<and> interpolate line_lib [0, 1, 2] [1, 3, 5] [1, 5] ''pchip'' None = Inr [3, 11]
   \<and> interpolate line_lib [0, 1, 2] [1, 3, 5] [1, 5] ''nearest'' (Some (- 1))
       = Inl (ValueError ''Invalid interpolation method nearest'')"
proof -
  note t = interpolate_fill_value [where x = "[0, 1, 2]" and y = "[1, 3, 5]" and xnew = "[1, 5]"
      and i = 1 and lib = line_lib and fv = "- 1" and fill_value = "Some (- 1)"
      and f = "\<lambda>e v. 2 * v + 1" and coeffs = "[0, 2, 1]"
      and g = "\<lambda>v. 2 * v + 1" and h = "\<lambda>v. 2 * v + 1"]
  have lib: "akima line_lib [0, 1, 2] [1, 3, 5] = Inr (\<lambda>e v. 2 * v + 1)"
    "pchip line_lib [0, 1, 2] [1, 3, 5] = Inr (\<lambda>e v. 2 * v + 1)"
    "polyfit line_lib [0, 1, 2] [1, 3, 5] 2 = Inr [0, 2, 1]"
    "splrep_splev line_lib [0, 1, 2] [1, 3, 5] = Inr (\<lambda>v. 2 * v + 1)"
    "barycentric line_lib [0, 1, 2] [1, 3, 5] = Inr (\<lambda>v. 2 * v + 1)"
    by (simp_all add: line_lib_def)
  have pv: "np_polyval [0, 2, 1] 5 = 11" "np_polyval [0, 2, 1] 1 = 3"
    by (simp_all add: np_polyval_def)
  note q = t [where m = "''quadratic''"]
  note c1 = q [THEN conjunct1]
  note r1 = q [THEN conjunct2]
  note c2 = r1 [THEN conjunct1]
  note r2 = r1 [THEN conjunct2]
  note c3 = r2 [THEN conjunct1]
  note r3 = r2 [THEN conjunct2]
  note c4 = r3 [THEN conjunct1]
  note r4 = r3 [THEN conjunct2]
  note c5 = r4 [THEN conjunct1]
  note r5 = r4 [THEN conjunct2]
  note c6 = r5 [THEN conjunct1]
  note r6 = r5 [THEN conjunct2]
  note c7 = r6 [THEN conjunct1]
  note r7 = r6 [THEN conjunct2]
  note c8 = r7 [THEN conjunct1]
  note r8 = r7 [THEN conjunct2]
  note c9 = r8 [THEN conjunct1]
  note r9 = r8 [THEN conjunct2]
  note c10 = r9 [THEN conjunct1]
  from c1
  have 1: "(\<exists>ynew. interpolate line_lib [0, 1, 2] [1, 3, 5] [1, 5] ''linear'' (Some (- 1)) = Inr ynew
       \<and> length ynew = length [1, 5 :: real] \<and> ynew ! 1 = - 1)"
    by simp
  from c2 lib
  have 2: "(\<exists>ynew. interpolate line_lib [0, 1, 2] [1, 3, 5] [1, 5] ''cubic'' (Some (- 1)) = Inr ynew
       \<and> length ynew = length [1, 5 :: real] \<and> ynew ! 1 = - 1)"
    by simp
  from c3 lib
  have 3: "(\<exists>ynew. interpolate line_lib [0, 1, 2] [1, 3, 5] [1, 5] ''pchip'' (Some (- 1)) = Inr ynew
       \<and> length ynew = length [1, 5 :: real] \<and> ynew ! 1 = - 1)"
    by simp
  from c4
  have 4: "interpolate line_lib [0, 1, 2] [1, 3, 5] [1, 5] ''quadratic'' (Some (- 1))
       = interpolate line_lib [0, 1, 2] [1, 3, 5] [1, 5] ''quadratic'' None"
    by simp
  from c5 lib pv
  have 5: "(\<exists>ynew. interpolate line_lib [0, 1, 2] [1, 3, 5] [1, 5] ''quadratic'' (Some (- 1)) = Inr ynew
       \<and> ynew ! 1 = 11)"
    by simp
  from c6 lib pv
  have 6: "interpolate line_lib [0, 1, 2] [1, 3, 5] [1, 5] ''quadratic'' (Some (- 1)) = Inr [3, 11]"
    by simp
  from c7 lib
  have 7: "interpolate line_lib [0, 1, 2] [1, 3, 5] [1, 5] ''spline'' (Some (- 1)) = Inr [3, 11]"
    by simp
  from c8 lib
  have 8: "interpolate line_lib [0, 1, 2] [1, 3, 5] [1, 5] ''barycentric'' (Some (- 1)) = Inr [3, 11]"
    by simp
  from c9 lib
  have 9: "interpolate line_lib [0, 1, 2] [1, 3, 5] [1, 5] ''cubic'' (Some (- 1)) = Inr [3, - 1]"
    "interpolate line_lib [0, 1, 2] [1, 3, 5] [1, 5] ''cubic'' None = Inr [3, 11]"
    by simp_all
  from c10 lib
  have 10: "interpolate line_lib [0, 1, 2] [1, 3, 5] [1, 5] ''pchip'' (Some (- 1)) = Inr [3, - 1]"
    "interpolate line_lib [0, 1, 2] [1, 3, 5] [1, 5] ''pchip'' None = Inr [3, 11]"
    by simp_all
  from t [where m = "''nearest''"]
  have 11: "interpolate line_lib [0, 1, 2] [1, 3, 5] [1, 5] ''nearest'' (Some (- 1))
       = Inl (ValueError ''Invalid interpolation method nearest'')"
    by simp
  from 1 2 3 4 5 6 7 8 9 10 11 show ?thesis by (intro conjI)
qed

subsection \<open>Full width at half maximum\<close>

text \<open>
  C10. \<open>fwhm\<close> applies a bound only when it is a float: with an \<open>int\<close> or a number of
  another type as \<open>xmin\<close> or \<open>xmax\<close> the result, errors and warnings included, is that of
  the bound \<open>None\<close>. On \<open>x = [0,1,2,3,4]\<close>, \<open>y = [0,4,8,4,0]\<close>, the bound \<open>xmin = 2\<close> given as
  an \<open>int\<close> leaves all four crossings, given as a float it leaves two.
\<close>

theorem fwhm_non_float_bound_ignored:
  "fwhm fit u data m (PyInt n) xmax = fwhm fit u data m PyNone xmax
   \<and> fwhm fit u data m (PyNumber r) xmax = fwhm fit u data m PyNone xmax
   \<and> fwhm fit u data m xmin (PyInt n) = fwhm fit u data m xmin PyNone
   \<and> fwhm fit u data m xmin (PyNumber r) = fwhm fit u data m xmin PyNone
   \<and> fwhm fit False ([0, 1, 2, 3, 4], [0, 4, 8, 4, 0]) ''zero-crossing'' (PyInt 2) PyNone
       = Inr ((Some 1, 4, Some 3, 4), [''Ambiguous zero-crossing points (found 4 points)''])
   \<and> fwhm fit False ([0, 1, 2, 3, 4], [0, 4, 8, 4, 0]) ''zero-crossing'' (PyFloat 2) PyNone
       = Inr ((Some 3, 4, Some 3, 4), [])"
proof (intro conjI)
  show "fwhm fit u data m (PyInt n) xmax = fwhm fit u data m PyNone xmax"
    unfolding fwhm_def isinstance_float.simps if_False by (rule refl)
  show "fwhm fit u data m (PyNumber r) xmax = fwhm fit u data m PyNone xmax"
    unfolding fwhm_def isinstance_float.simps if_False by (rule refl)
  show "fwhm fit u data m xmin (PyInt n) = fwhm fit u data m xmin PyNone"
    unfolding fwhm_def isinstance_float.simps if_False by (rule refl)
  show "fwhm fit u data m xmin (PyNumber r) = fwhm fit u data m xmin PyNone"
    unfolding fwhm_def isinstance_float.simps if_False by (rule refl)
  show "fwhm fit False ([0, 1, 2, 3, 4], [0, 4, 8, 4, 0]) ''zero-crossing'' (PyInt 2) PyNone
       = Inr ((Some 1, 4, Some 3, 4), [''Ambiguous zero-crossing points (found 4 points)''])"
    by code_simp
  show "fwhm fit False ([0, 1, 2, 3, 4], [0, 4, 8, 4, 0]) ''zero-crossing'' (PyFloat 2) PyNone
       = Inr ((Some 3, 4, Some 3, 4), [])"
    by code_simp
qed

end
